theory Spec2Isabelle
  imports Main "HOL-Library.Code_Target_Nat"
begin

section \<open>Python text\<close>

text \<open>
  A Python \<open>str\<close> is a sequence of Unicode code points, so text is modelled as a list of
  code points (\<open>length\<close> counts what Python's \<open>len\<close> counts). \<open>py\<close> turns an ASCII
  literal of the theory into such a text.
\<close>

type_synonym pystr = "nat list"

definition py :: "string \<Rightarrow> pystr" where
  "py s = map of_char s"

text \<open>
  \<open>str.isspace\<close> on one code point; the regular-expression class \<open>\s\<close> of a \<open>str\<close>
  pattern and \<open>str.strip()\<close> both use this predicate: U+0009..U+000D, U+001C..U+0020,
  U+0085, U+00A0, U+1680, U+2000..U+200A, U+2028, U+2029, U+202F, U+205F, U+3000.
\<close>

definition isspace :: "nat \<Rightarrow> bool" where
  "isspace c \<longleftrightarrow>
     (9 \<le> c \<and> c \<le> 13) \<or> (28 \<le> c \<and> c \<le> 32) \<or> c = 133 \<or> c = 160 \<or> c = 5760 \<or>
     (8192 \<le> c \<and> c \<le> 8202) \<or> c = 8232 \<or> c = 8233 \<or> c = 8239 \<or> c = 8287 \<or> c = 12288"

text \<open>\<open>s.startswith(p)\<close>.\<close>

definition startswith :: "pystr \<Rightarrow> pystr \<Rightarrow> bool" where
  "startswith s p \<longleftrightarrow> take (length p) s = p"

text \<open>
  \<open>s.replace(old, new)\<close>: the occurrences of \<open>old\<close> are found from left to right and do
  not overlap; an empty \<open>old\<close> matches before every character and at the end.
\<close>

function str_replace :: "pystr \<Rightarrow> pystr \<Rightarrow> pystr \<Rightarrow> pystr" where
  "str_replace old new [] = (if old = [] then new else [])"
| "str_replace old new (c # cs) =
     (if old = [] then new @ c # str_replace old new cs
      else if startswith (c # cs) old
           then new @ str_replace old new (drop (length old) (c # cs))
           else c # str_replace old new cs)"
  by pat_completeness auto
termination
  by (relation "measure (\<lambda>(old, new, s). length s)") (auto simp: startswith_def)

declare str_replace.simps [simp del]

definition lstrip :: "pystr \<Rightarrow> pystr" where
  "lstrip s = dropWhile isspace s"

definition rstrip :: "pystr \<Rightarrow> pystr" where
  "rstrip s = rev (dropWhile isspace (rev s))"

definition strip :: "pystr \<Rightarrow> pystr" where
  "strip s = rstrip (lstrip s)"

text \<open>
  \<open>sub in s\<close>: \<open>sub\<close> occurs in \<open>s\<close> as a contiguous piece.
\<close>

fun contains :: "pystr \<Rightarrow> pystr \<Rightarrow> bool" where
  "contains sub [] = (sub = [])"
| "contains sub (c # cs) = (startswith (c # cs) sub \<or> contains sub cs)"

section \<open>The Response Normalizer (\<open>clean_json_output\<close>)\<close>

text \<open>
  One letter of the pattern \<open>json\<close> under \<open>re.IGNORECASE\<close>: a lower-case ASCII letter
  of the pattern matches itself and its upper-case form, and \<open>s\<close> also matches
  U+017F (LATIN SMALL LETTER LONG S), whose case folding is \<open>s\<close>. No other code point
  folds to one of the letters j, s, o, n.
\<close>

definition match_ci :: "char \<Rightarrow> nat \<Rightarrow> bool" where
  "match_ci p c \<longleftrightarrow> c = of_char p \<or> c + 32 = of_char p \<or> (p = CHR ''s'' \<and> c = 383)"

text \<open>
  The pattern \<open>^\\s*json\\s*\<close> matched at the start of the text (without
  \<open>re.MULTILINE\<close> the anchor \<open>^\<close> matches there only). The first \<open>\\s*\<close> takes all the
  leading whitespace (no letter of \<open>json\<close> is whitespace, so giving whitespace back
  never helps), the four letters follow, and the second \<open>\\s*\<close> takes all the whitespace
  after them. The result is the text after the match, \<open>None\<close> when there is no match.
\<close>

definition re_match_json :: "pystr \<Rightarrow> pystr option" where
  "re_match_json s =
     (let s1 = dropWhile isspace s
      in if list_all2 match_ci ''json'' (take 4 s1)
         then Some (dropWhile isspace (drop 4 s1))
         else None)"

text \<open>
  \<open>re.sub(r'^\\s*json\\s*', '', s, flags=re.IGNORECASE)\<close>: the match, if any, is replaced
  by the empty text. A match is never empty and a second one would have to start after
  position 0, where \<open>^\<close> does not match, so at most one replacement happens.
\<close>

definition re_sub_json :: "pystr \<Rightarrow> pystr" where
  "re_sub_json s = (case re_match_json s of None \<Rightarrow> s | Some rest \<Rightarrow> rest)"

definition clean_json_output :: "pystr \<Rightarrow> pystr" where
  "clean_json_output response_str =
     (let cleaned_response = str_replace (py ''```'') [] response_str;
          cleaned_response = re_sub_json cleaned_response
      in strip cleaned_response)"

section \<open>JSON values and \<open>json.loads\<close>\<close>

text \<open>
  The values \<open>json.loads\<close> builds: \<open>None\<close>, \<open>bool\<close>, \<open>int\<close> (unbounded), \<open>float\<close>,
  \<open>str\<close>, \<open>list\<close> and \<open>dict\<close>. A \<open>dict\<close> is the list of its items in insertion order,
  with distinct keys. A \<open>float\<close> is kept as the literal that \<open>float()\<close> reads (also
  \<open>NaN\<close>, \<open>Infinity\<close>, \<open>-Infinity\<close>): floating-point arithmetic is not modelled, so
  equality of two modelled values implies equality of the Python values, and not the
  converse.
\<close>

datatype json =
    JNull
  | JBool bool
  | JInt int
  | JFloat pystr
  | JString pystr
  | JArray "json list"
  | JObject "(pystr \<times> json) list"

text \<open>\<open>d[k] = v\<close> on a \<open>dict\<close>: a new key goes to the end, a known key keeps its place.\<close>

fun dict_set :: "pystr \<Rightarrow> json \<Rightarrow> (pystr \<times> json) list \<Rightarrow> (pystr \<times> json) list" where
  "dict_set k v [] = [(k, v)]"
| "dict_set k v ((k', v') # d) = (if k' = k then (k, v) # d else (k', v') # dict_set k v d)"

text \<open>\<open>dict(pairs)\<close>: of two pairs with the same key the later value wins.\<close>

definition dict :: "(pystr \<times> json) list \<Rightarrow> (pystr \<times> json) list" where
  "dict pairs = foldl (\<lambda>d (k, v). dict_set k v d) [] pairs"

text \<open>
  \<open>json.loads\<close> is library code. It is modelled by what the decoder of the standard
  library accepts (\<open>json.decoder\<close>, \<open>json.scanner\<close>, strict mode, no hooks): a scan of the
  text into tokens, with the whitespace \<open>' \t\n\r'\<close> allowed around every token, and a
  pushdown recogniser for the grammar of values over the tokens. \<open>None\<close> stands for
  \<open>JSONDecodeError\<close>. The interpreter's resource limits (recursion depth, the digit limit
  of \<open>int()\<close>) are not modelled.
\<close>

definition json_ws :: "nat \<Rightarrow> bool" where
  "json_ws c \<longleftrightarrow> c = 32 \<or> c = 9 \<or> c = 10 \<or> c = 13"

definition isdigit :: "nat \<Rightarrow> bool" where
  "isdigit c \<longleftrightarrow> 48 \<le> c \<and> c \<le> 57"

definition ishex :: "nat \<Rightarrow> bool" where
  "ishex c \<longleftrightarrow> (48 \<le> c \<and> c \<le> 57) \<or> (65 \<le> c \<and> c \<le> 70) \<or> (97 \<le> c \<and> c \<le> 102)"

text \<open>The value of a hexadecimal digit.\<close>

definition hexval :: "nat \<Rightarrow> nat" where
  "hexval c = (if c \<le> 57 then c - 48 else if c \<le> 70 then c - 55 else c - 87)"

text \<open>
  The four hexadecimal digits \<open>[0-9A-Fa-f]{4}\<close> of a \<open>\uXXXX\<close> escape, read from the start of
  the text, and their value \<open>int(digits, 16)\<close>.
\<close>

definition decode_uXXXX :: "pystr \<Rightarrow> nat option" where
  "decode_uXXXX s =
     (if 4 \<le> length s \<and> list_all ishex (take 4 s)
      then Some (foldl (\<lambda>a c. a * 16 + hexval c) 0 (take 4 s))
      else None)"

text \<open>The one-letter escapes: \<open>\"\<close>, \<open>\\\<close>, \<open>\/\<close>, \<open>\b\<close>, \<open>\f\<close>, \<open>\n\<close>, \<open>\r\<close>, \<open>\t\<close>.\<close>

definition backslash :: "nat \<Rightarrow> nat option" where
  "backslash esc =
     (if esc = 34 then Some 34 else if esc = 92 then Some 92 else if esc = 47 then Some 47
      else if esc = 98 then Some 8 else if esc = 102 then Some 12 else if esc = 110 then Some 10
      else if esc = 114 then Some 13 else if esc = 116 then Some 9 else None)"

definition prepend :: "nat \<Rightarrow> (pystr \<times> pystr) option \<Rightarrow> (pystr \<times> pystr) option" where
  "prepend ch r = (case r of None \<Rightarrow> None | Some (str, rest) \<Rightarrow> Some (ch # str, rest))"

text \<open>
  A \<open>\uXXXX\<close> escape, read after the \<open>u\<close>: the code point and the text after the escape.
  A high surrogate directly followed by the escape of a low surrogate gives one code point;
  any other value, a lone surrogate too, is taken as it is.
\<close>

definition unicode_escape :: "pystr \<Rightarrow> (nat \<times> pystr) option" where
  "unicode_escape s =
     (case decode_uXXXX s of
        None \<Rightarrow> None
      | Some uni \<Rightarrow>
          if 55296 \<le> uni \<and> uni \<le> 56319 \<and> take 2 (drop 4 s) = [92, 117] then
            (case decode_uXXXX (drop 6 s) of
               None \<Rightarrow> None
             | Some uni2 \<Rightarrow>
                 if 56320 \<le> uni2 \<and> uni2 \<le> 57343
                 then Some (65536 + ((uni - 55296) * 1024 + (uni2 - 56320)), drop 10 s)
                 else Some (uni, drop 4 s))
          else Some (uni, drop 4 s))"

text \<open>An escape, read after the backslash: the character it stands for and the text after it.\<close>

fun escape :: "pystr \<Rightarrow> (nat \<times> pystr) option" where
  "escape [] = None"
| "escape (esc # cs) =
     (if esc = 117 then unicode_escape cs
      else case backslash esc of None \<Rightarrow> None | Some ch \<Rightarrow> Some (ch, cs))"

lemma unicode_escape_length: "unicode_escape s = Some (ch, rest) \<Longrightarrow> length rest \<le> length s"
  unfolding unicode_escape_def by (auto split: option.splits if_splits)

lemma escape_length: "escape s = Some (ch, rest) \<Longrightarrow> length rest < length s"
  by (cases s) (auto split: option.splits if_splits dest: unicode_escape_length)

text \<open>
  \<open>scanstring\<close>, started after the opening quote: the decoded string and the text after
  the closing quote. A control character below U+0020 is refused (strict mode).
\<close>

function scanstring :: "pystr \<Rightarrow> (pystr \<times> pystr) option" where
  "scanstring [] = None"
| "scanstring (c # cs) =
     (if c = 34 then Some ([], cs)
      else if c = 92 then
        (case escape cs of
           None \<Rightarrow> None
         | Some (ch, rest) \<Rightarrow> prepend ch (scanstring rest))
      else if c < 32 then None
      else prepend c (scanstring cs))"
  by pat_completeness auto
termination
  by (relation "measure length") (auto dest: escape_length)

text \<open>\<open>int(digits)\<close> for a text of decimal digits.\<close>

definition int_of_digits :: "pystr \<Rightarrow> int" where
  "int_of_digits ds = foldl (\<lambda>a d. a * 10 + int (d - 48)) 0 ds"

text \<open>
  The number pattern \<open>(-?(?:0|[1-9]\d*))(\.\d+)?([eE][-+]?\d+)?\<close> at the start of the text:
  the value and the text after the match. The sign, the integer part, the fraction and
  the exponent are matched one after the other (the last two are optional groups, taken
  whenever they match). Without fraction and exponent the value is an \<open>int\<close>, otherwise
  the \<open>float\<close> of the matched literal.
\<close>

definition number_sign :: "pystr \<Rightarrow> pystr" where
  "number_sign s = (if take 1 s = [45] then [45] else [])"

definition number_integer :: "pystr \<Rightarrow> pystr" where
  "number_integer s =
     (case s of
        [] \<Rightarrow> []
      | d # ds \<Rightarrow> if d = 48 then [48]
                 else if isdigit d then d # takeWhile isdigit ds
                 else [])"

definition number_frac :: "pystr \<Rightarrow> pystr" where
  "number_frac s =
     (case s of
        p # d # ds \<Rightarrow> if p = 46 \<and> isdigit d then p # d # takeWhile isdigit ds else []
      | _ \<Rightarrow> [])"

text \<open>The optional sign \<open>[-+]?\<close> at the start of the digits of an exponent.\<close>

definition exp_sign :: "pystr \<Rightarrow> pystr" where
  "exp_sign r = (if take 1 r = [43] \<or> take 1 r = [45] then take 1 r else [])"

definition number_exp :: "pystr \<Rightarrow> pystr" where
  "number_exp s =
     (case s of
        [] \<Rightarrow> []
      | e # r \<Rightarrow>
          if e = 101 \<or> e = 69 then
            (let sg = (if take 1 r = [43] \<or> take 1 r = [45] then take 1 r else []);
                 ds = takeWhile isdigit (drop (length sg) r)
             in if ds = [] then [] else e # sg @ ds)
          else [])"

definition match_exp :: "pystr \<Rightarrow> pystr \<Rightarrow> pystr \<Rightarrow> pystr \<Rightarrow> json \<times> pystr" where
  "match_exp sign integer frac s =
     (let exp = number_exp s
      in (if frac = [] \<and> exp = []
          then JInt ((if sign = [] then 1 else -1) * int_of_digits integer)
          else JFloat (sign @ integer @ frac @ exp),
          drop (length exp) s))"

definition match_frac :: "pystr \<Rightarrow> pystr \<Rightarrow> pystr \<Rightarrow> json \<times> pystr" where
  "match_frac sign integer s =
     (let frac = number_frac s in match_exp sign integer frac (drop (length frac) s))"

definition match_integer :: "pystr \<Rightarrow> pystr \<Rightarrow> (json \<times> pystr) option" where
  "match_integer sign s =
     (let integer = number_integer s
      in if integer = [] then None
         else Some (match_frac sign integer (drop (length integer) s)))"

definition match_number :: "pystr \<Rightarrow> (json \<times> pystr) option" where
  "match_number s = (let sign = number_sign s in match_integer sign (drop (length sign) s))"

text \<open>
  A value that is not a string, an object or an array, in the order the scanner tries
  them: \<open>null\<close>, \<open>true\<close>, \<open>false\<close>, a number, \<open>NaN\<close>, \<open>Infinity\<close>, \<open>-Infinity\<close>.
\<close>

definition scan_atom :: "pystr \<Rightarrow> (json \<times> pystr) option" where
  "scan_atom s =
     (if startswith s (py ''null'') then Some (JNull, drop 4 s)
      else if startswith s (py ''true'') then Some (JBool True, drop 4 s)
      else if startswith s (py ''false'') then Some (JBool False, drop 5 s)
      else case match_number s of
             Some r \<Rightarrow> Some r
           | None \<Rightarrow>
               if startswith s (py ''NaN'') then Some (JFloat (py ''NaN''), drop 3 s)
               else if startswith s (py ''Infinity'') then Some (JFloat (py ''Infinity''), drop 8 s)
               else if startswith s (py ''-Infinity'') then Some (JFloat (py ''-Infinity''), drop 9 s)
               else None)"

datatype token =
    TLBrace | TRBrace | TLBracket | TRBracket | TColon | TComma
  | TString pystr
  | TAtom json

definition push :: "token \<Rightarrow> token list option \<Rightarrow> token list option" where
  "push t r = (case r of None \<Rightarrow> None | Some ts \<Rightarrow> Some (t # ts))"

text \<open>
  Every token takes at least one character of the text: the scan into tokens terminates.
\<close>

lemma prepend_Some:
  "prepend ch r = Some (str, rest) \<Longrightarrow> \<exists>str'. r = Some (str', rest) \<and> str = ch # str'"
  unfolding prepend_def by (auto split: option.splits)

lemma scanstring_length: "scanstring s = Some (str, rest) \<Longrightarrow> length rest < length s"
proof (induction s arbitrary: str rule: scanstring.induct)
  case 1
  then show ?case by simp
next
  case (2 c cs)
  show ?case
  proof (cases "c = 34")
    case True
    then show ?thesis using "2.prems" by simp
  next
    case c34: False
    show ?thesis
    proof (cases "c = 92")
      case True
      then obtain ch r str' where e: "escape cs = Some (ch, r)"
        and s: "scanstring r = Some (str', rest)"
        using "2.prems" c34 by (auto split: option.splits dest!: prepend_Some)
      have "length rest < length r" using "2.IH"(1) c34 True e s by blast
      moreover have "length r < length cs" using e by (rule escape_length)
      ultimately show ?thesis by simp
    next
      case False
      then have nc: "\<not> c < 32" using "2.prems" c34 by (auto split: if_splits)
      then obtain str' where "scanstring cs = Some (str', rest)"
        using "2.prems" c34 False by (auto split: if_splits dest!: prepend_Some)
      then have "length rest < length cs" using "2.IH"(2) c34 False nc by blast
      then show ?thesis by simp
    qed
  qed
qed

lemma startswith_length: "startswith s p \<Longrightarrow> length p \<le> length s"
  unfolding startswith_def by (metis length_take min.cobounded1)

lemma number_integer_length: "length (number_integer s) \<le> length s"
  unfolding number_integer_def by (cases s) (auto simp: length_takeWhile_le)

lemma match_exp_rest: "\<exists>n. snd (match_exp sign integer frac s) = drop n s"
  unfolding match_exp_def Let_def by auto

lemma match_frac_rest: "\<exists>n. snd (match_frac sign integer s) = drop n s"
proof -
  obtain n where "snd (match_frac sign integer s) = drop n (drop (length (number_frac s)) s)"
    unfolding match_frac_def Let_def using match_exp_rest by blast
  then show ?thesis by (metis drop_drop)
qed

lemma match_integer_length:
  assumes "match_integer sign s = Some (v, rest)"
  shows "length rest < length s"
proof -
  have ne: "number_integer s \<noteq> []"
    and r: "(v, rest) = match_frac sign (number_integer s) (drop (length (number_integer s)) s)"
    using assms unfolding match_integer_def Let_def by (auto split: if_splits)
  obtain n where "snd (match_frac sign (number_integer s) (drop (length (number_integer s)) s))
      = drop n (drop (length (number_integer s)) s)"
    using match_frac_rest by blast
  then have "rest = drop n (drop (length (number_integer s)) s)"
    using r by (metis snd_conv)
  then have "length rest \<le> length s - length (number_integer s)" by auto
  moreover have "length (number_integer s) \<le> length s" by (rule number_integer_length)
  moreover have "0 < length (number_integer s)" using ne by simp
  ultimately show ?thesis by linarith
qed

lemma match_number_length:
  assumes "match_number s = Some (v, rest)"
  shows "length rest < length s"
proof -
  have "length rest < length (drop (length (number_sign s)) s)"
    using assms unfolding match_number_def Let_def by (rule match_integer_length)
  then show ?thesis by simp
qed

lemma startswith_drop:
  "startswith s p \<Longrightarrow> length p = n \<Longrightarrow> 0 < n \<Longrightarrow> length (drop n s) < length s"
  using startswith_length[of s p] by auto

lemma scan_atom_length:
  assumes "scan_atom s = Some (v, rest)"
  shows "length rest < length s"
  using assms unfolding scan_atom_def
  by (auto split: if_splits option.splits dest: match_number_length
        intro!: startswith_drop simp: py_def)

text \<open>
  The scan of a text into tokens; \<open>None\<close> when some character starts no token.
\<close>

function tokenize :: "pystr \<Rightarrow> token list option" where
  "tokenize [] = Some []"
| "tokenize (c # cs) =
     (if json_ws c then tokenize cs
      else if c = 123 then push TLBrace (tokenize cs)
      else if c = 125 then push TRBrace (tokenize cs)
      else if c = 91 then push TLBracket (tokenize cs)
      else if c = 93 then push TRBracket (tokenize cs)
      else if c = 58 then push TColon (tokenize cs)
      else if c = 44 then push TComma (tokenize cs)
      else if c = 34 then
        (case scanstring cs of
           None \<Rightarrow> None
         | Some (str, rest) \<Rightarrow> push (TString str) (tokenize rest))
      else
        (case scan_atom (c # cs) of
           None \<Rightarrow> None
         | Some (v, rest) \<Rightarrow> push (TAtom v) (tokenize rest)))"
  by pat_completeness auto
termination
proof (relation "measure length")
qed (auto dest: scanstring_length scan_atom_length)

declare tokenize.simps [simp del]

text \<open>
  The grammar of values over the tokens. The recogniser keeps the containers that are still
  open (innermost first) and what may come next.
\<close>

datatype frame =
    FArray "json list"
  | FObject "(pystr \<times> json) list"
  | FMember "(pystr \<times> json) list" pystr

datatype expect =
    EValue
  | EFirstElem
  | EFirstKey
  | EKey
  | EColon
  | ESep
  | EEnd json

text \<open>
  A value is complete: it is the result (no container is open), the next element of the
  innermost array, or the value of the pending key of the innermost object.
\<close>

fun complete :: "json \<Rightarrow> frame list \<Rightarrow> (expect \<times> frame list) option" where
  "complete v [] = Some (EEnd v, [])"
| "complete v (FArray xs # st) = Some (ESep, FArray (xs @ [v]) # st)"
| "complete v (FMember ps k # st) = Some (ESep, FObject (ps @ [(k, v)]) # st)"
| "complete v (FObject ps # st) = None"

fun begin_value :: "token \<Rightarrow> frame list \<Rightarrow> (expect \<times> frame list) option" where
  "begin_value TLBracket st = Some (EFirstElem, FArray [] # st)"
| "begin_value TLBrace st = Some (EFirstKey, FObject [] # st)"
| "begin_value (TString str) st = complete (JString str) st"
| "begin_value (TAtom v) st = complete v st"
| "begin_value _ st = None"

fun close_array :: "frame list \<Rightarrow> (expect \<times> frame list) option" where
  "close_array (FArray xs # st) = complete (JArray xs) st"
| "close_array _ = None"

fun close_object :: "frame list \<Rightarrow> (expect \<times> frame list) option" where
  "close_object (FObject ps # st) = complete (JObject (dict ps)) st"
| "close_object _ = None"

fun begin_member :: "token \<Rightarrow> frame list \<Rightarrow> (expect \<times> frame list) option" where
  "begin_member (TString k) (FObject ps # st) = Some (EColon, FMember ps k # st)"
| "begin_member _ _ = None"

fun separator :: "frame list \<Rightarrow> (expect \<times> frame list) option" where
  "separator (FArray xs # st) = Some (EValue, FArray xs # st)"
| "separator (FObject ps # st) = Some (EKey, FObject ps # st)"
| "separator _ = None"

fun step :: "expect \<Rightarrow> frame list \<Rightarrow> token \<Rightarrow> (expect \<times> frame list) option" where
  "step EValue st t = begin_value t st"
| "step EFirstElem st t = (if t = TRBracket then close_array st else begin_value t st)"
| "step EFirstKey st t = (if t = TRBrace then close_object st else begin_member t st)"
| "step EKey st t = begin_member t st"
| "step EColon st t = (if t = TColon then Some (EValue, st) else None)"
| "step ESep st t =
     (if t = TComma then separator st
      else if t = TRBracket then close_array st
      else if t = TRBrace then close_object st
      else None)"
| "step (EEnd v) st t = None"

fun parse :: "expect \<Rightarrow> frame list \<Rightarrow> token list \<Rightarrow> json option" where
  "parse e st [] = (case e of EEnd v \<Rightarrow> Some v | _ \<Rightarrow> None)"
| "parse e st (t # ts) =
     (case step e st t of
        None \<Rightarrow> None
      | Some (e', st') \<Rightarrow> parse e' st' ts)"

definition json_loads :: "pystr \<Rightarrow> json option" where
  "json_loads s = (case tokenize s of None \<Rightarrow> None | Some ts \<Rightarrow> parse EValue [] ts)"

text \<open>\<open>d.get(k)\<close> on a decoded value: \<open>None\<close> when the value is no \<open>dict\<close> or lacks the key.\<close>

fun dict_get :: "json \<Rightarrow> pystr \<Rightarrow> json option" where
  "dict_get (JObject d) k = map_of d k"
| "dict_get _ k = None"

section \<open>The Completion Service and the stages\<close>

text \<open>
  A call \<open>chain.run(...)\<close> of an \<open>LLMChain\<close> fills the stage's prompt template with the
  arguments and returns the text of the model. A request is the stage's template together
  with its arguments; an argument rendered by \<open>json.dumps\<close> is kept as the value rendered
  (the rendering is a function of the value).
\<close>

datatype request =
    IntentPrompt pystr
  | PlanningPrompt json
  | RefinePrompt json json
  | SystemPrompt json json
  | SummaryPrompt pystr

text \<open>
  The model is not deterministic: its text may depend on everything it was asked before.
  A service maps the requests issued so far and the current request to the text returned.
\<close>

type_synonym service = "request list \<Rightarrow> request \<Rightarrow> pystr"

text \<open>What one \<open>print\<close> call writes: a text, or \<open>json.dumps(v, ensure_ascii=False, indent=2)\<close>.\<close>

datatype printed = PrintText pystr | PrintJson json

text \<open>
  The effects of a run: the requests issued to the Completion Service, in order, and what
  was printed.
\<close>

record world =
  calls :: "request list"
  stdout :: "printed list"

text \<open>
  \<open>ValueError msg doc\<close>: the \<open>ValueError\<close> with message \<open>msg\<close> that a stage raises inside its
  \<open>except json.JSONDecodeError\<close> block. Raised while the decode error is being handled, it
  has that error as its \<open>__context__\<close>, and \<open>doc\<close> is the \<open>doc\<close> attribute of the decode error:
  the text that was given to \<open>json.loads\<close>.
\<close>

datatype error = ValueError pystr pystr

definition chain_run :: "service \<Rightarrow> request \<Rightarrow> world \<Rightarrow> pystr \<times> world" where
  "chain_run llm req w = (llm (calls w) req, w\<lparr>calls := calls w @ [req]\<rparr>)"

definition print :: "printed \<Rightarrow> world \<Rightarrow> world" where
  "print x w = w\<lparr>stdout := stdout w @ [x]\<rparr>"

text \<open>\<open>str(n)\<close> for a natural number.\<close>

fun str_nat :: "nat \<Rightarrow> pystr" where
  "str_nat n = (if n < 10 then [48 + n] else str_nat (n div 10) @ [48 + n mod 10])"

declare str_nat.simps [simp del]

definition generate_intent :: "service \<Rightarrow> pystr \<Rightarrow> world \<Rightarrow> (error + json) \<times> world" where
  "generate_intent llm user_input w =
     (let (response_str, w) = chain_run llm (IntentPrompt user_input) w;
          response_str = clean_json_output response_str
      in case json_loads response_str of
           Some intent \<Rightarrow> (Inr intent, w)
         | None \<Rightarrow>
             (Inl (ValueError (py ''Failed to parse JSON response in generate_intent'') response_str),
              print (PrintText (py ''Failed to parse JSON response in generate_intent: '' @ response_str)) w))"

definition generate_call_plan :: "service \<Rightarrow> json \<Rightarrow> world \<Rightarrow> (error + json) \<times> world" where
  "generate_call_plan llm intent w =
     (let (response_json_str, w) = chain_run llm (PlanningPrompt intent) w;
          response_json_str = clean_json_output response_json_str
      in case json_loads response_json_str of
           Some plan \<Rightarrow> (Inr plan, w)
         | None \<Rightarrow>
             (Inl (ValueError (py ''Failed to parse JSON response in generate_call_plan'') response_json_str),
              print (PrintText (py ''Failed to parse JSON response in generate_call_plan: '' @ response_json_str)) w))"

text \<open>
  The loop \<open>for i in range(iterations)\<close> of \<open>iterative_refinement\<close>, over the values of \<open>i\<close>
  still to come, with the current \<open>refined_plan\<close>.
\<close>

fun refine_loop :: "service \<Rightarrow> json \<Rightarrow> nat list \<Rightarrow> json \<Rightarrow> world \<Rightarrow> (error + json) \<times> world" where
  "refine_loop llm intent [] refined_plan w = (Inr refined_plan, w)"
| "refine_loop llm intent (i # is) refined_plan w =
     (let (response_json_str, w) = chain_run llm (RefinePrompt refined_plan intent) w;
          response_json_str = clean_json_output response_json_str
      in case json_loads response_json_str of
           Some refined_plan \<Rightarrow> refine_loop llm intent is refined_plan w
         | None \<Rightarrow>
             (Inl (ValueError
                (py ''Failed to parse JSON response in iterative_refinement, iteration '' @ str_nat (i + 1))
                response_json_str),
              print (PrintText
                (py ''Failed to parse JSON response in iterative_refinement, iteration '' @ str_nat (i + 1)
                 @ py '' : '' @ response_json_str)) w))"

text \<open>\<open>range(n)\<close> for an integer \<open>n\<close>: empty when \<open>n\<close> is zero or negative.\<close>

definition py_range :: "int \<Rightarrow> nat list" where
  "py_range n = [0..<nat n]"

definition iterative_refinement ::
    "service \<Rightarrow> json \<Rightarrow> json \<Rightarrow> int \<Rightarrow> world \<Rightarrow> (error + json) \<times> world" where
  "iterative_refinement llm plan intent iterations w =
     refine_loop llm intent (py_range iterations) plan w"

definition create_cot_system_prompt_from_plan ::
    "service \<Rightarrow> json \<Rightarrow> json \<Rightarrow> world \<Rightarrow> pystr \<times> world" where
  "create_cot_system_prompt_from_plan llm plan intent w =
     (let (final_output, w) = chain_run llm (SystemPrompt plan intent) w;
          final_output = clean_json_output final_output
      in (final_output, w))"

definition summarize_call_log :: "service \<Rightarrow> pystr \<Rightarrow> world \<Rightarrow> (error + json) \<times> world" where
  "summarize_call_log llm call_log w =
     (let (response_str, w) = chain_run llm (SummaryPrompt call_log) w;
          response_str = clean_json_output response_str
      in case json_loads response_str of
           Some summary \<Rightarrow> (Inr summary, w)
         | None \<Rightarrow>
             (Inl (ValueError (py ''Failed to parse JSON response in summarize_call_log'') response_str),
              print (PrintText (py ''Failed to parse JSON response in summarize_call_log: '' @ response_str)) w))"

text \<open>The demo driver \<open>main\<close> of \<open>planner.py\<close>: the four stages in order, with three refinements.\<close>

definition user_input_example :: pystr where
  "user_input_example =
     py ''Want to ask insurance company about my car insurance. when my insurance is expired, and I want to renew.''"

definition planner_main :: "service \<Rightarrow> world \<Rightarrow> (error + unit) \<times> world" where
  "planner_main llm w =
     (case generate_intent llm user_input_example w of
        (Inl e, w) \<Rightarrow> (Inl e, w)
      | (Inr intent, w) \<Rightarrow>
          let w = print (PrintText (10 # py ''[Generated Intent]'')) w;
              w = print (PrintJson intent) w
          in case generate_call_plan llm intent w of
               (Inl e, w) \<Rightarrow> (Inl e, w)
             | (Inr initial_plan, w) \<Rightarrow>
                 let w = print (PrintText (10 # py ''[Initial Call Plan]'')) w;
                     w = print (PrintJson initial_plan) w
                 in case iterative_refinement llm initial_plan intent 3 w of
                      (Inl e, w) \<Rightarrow> (Inl e, w)
                    | (Inr refined_plan, w) \<Rightarrow>
                        let w = print (PrintText (10 # py ''[Refined Call Plan]'')) w;
                            w = print (PrintJson refined_plan) w;
                            (final_system_prompt, w) =
                               create_cot_system_prompt_from_plan llm refined_plan intent w;
                            w = print (PrintText (10 # py ''[Final System Prompt]'')) w;
                            w = print (PrintText final_system_prompt) w
                        in (Inr (), w))"

text \<open>
  The demo driver \<open>main\<close> of \<open>summary.py\<close>: the call record it summarizes, one line of the
  source's literal after the other (each ends with a newline), and the run.
\<close>

definition call_record_example :: pystr where
  "call_record_example = concat (map (\<lambda>l. py l @ [10])
     [''Hello Tony, this is Seo calling to confirm our meeting time scheduled for 7pm.'',
      '''',
      ''0:00'',
      ''I'm sorry, I can't go to the apartment.'',
      '''',
      ''0:06'',
      ''I understand, Tony. Could you let me know if there's a different time that works better for you, or if there's a reason for the change? I want to make sure we have the correct details.'',
      '''',
      ''0:11'',
      ''1590 ms'',
      ''Because my car is broken, so can we make another appointment next week?'',
      '''',
      ''0:23'',
      ''I see, Tony. Thank you for letting me know. I will note that your car is currently unavailable and that you'd prefer to reschedule for next week. I will verify the new appointment time and follow up with you soon. Is there anything else I can assist you with today?'',
      '''',
      ''0:33'',
      ''483 ms'',
      ''Oh thank you Dan! I want you to let me know how faster when your appointment is available.'',
      '''',
      ''0:48'',
      ''I'll make sure to check the earliest available appointment for next week and get back to you as soon as possible. If there's anything else you need, feel free to let me know.'',
      '''',
      ''0:59'',
      ''556 ms'',
      ''Oh thanks! It's okay.'',
      '''',
      ''1:08'',
      ''Thank you, Tony. I'll follow up with you soon regarding the new appointment time. Have a great day!'',
      '''',
      ''1:12'',
      ''Tool called: end_call'',
      '''',
      '''',
      ''1:12''])"

definition summary_main :: "service \<Rightarrow> world \<Rightarrow> (error + unit) \<times> world" where
  "summary_main llm w =
     (case summarize_call_log llm call_record_example w of
        (Inl e, w) \<Rightarrow> (Inl e, w)
      | (Inr summary, w) \<Rightarrow>
          let w = print (PrintText (10 # py ''[Call Record Summary]'')) w;
              w = print (PrintJson summary) w
          in (Inr (), w))"

text \<open>The stage a request belongs to.\<close>

fun stage_of :: "request \<Rightarrow> string" where
  "stage_of (IntentPrompt _) = ''generate_intent''"
| "stage_of (PlanningPrompt _) = ''generate_call_plan''"
| "stage_of (RefinePrompt _ _) = ''iterative_refinement''"
| "stage_of (SystemPrompt _ _) = ''create_cot_system_prompt_from_plan''"
| "stage_of (SummaryPrompt _) = ''summarize_call_log''"

text \<open>
  The text the service returns to request \<open>req\<close>, issued after the requests \<open>h\<close>,
  normalizes to something \<open>json.loads\<close> accepts.
\<close>

definition decodes :: "service \<Rightarrow> request list \<Rightarrow> request \<Rightarrow> bool" where
  "decodes llm h req \<longleftrightarrow> json_loads (clean_json_output (llm h req)) \<noteq> None"

text \<open>The order in which a run of \<open>planner.py\<close> issues its requests.\<close>

definition pipeline :: "string list" where
  "pipeline =
     [''generate_intent'', ''generate_call_plan'',
      ''iterative_refinement'', ''iterative_refinement'', ''iterative_refinement'',
      ''create_cot_system_prompt_from_plan'']"

text \<open>Completion Service stubs and inputs for the concrete runs below.\<close>

definition numbered_stub :: service where
  "numbered_stub h req = py ''```json'' @ [10] @ py ''{\"revision\": '' @ str_nat (length h) @ py ''}'' @ [10] @ py ''```''"

definition array_stub :: service where
  "array_stub h req = py ''[1, \"two\", null]''"

definition prose_stub :: service where
  "prose_stub h req = py ''Sure! Here is the plan you asked for.''"

definition failing_third_stub :: service where
  "failing_third_stub h req = (if length h = 3 then py ''{\"scenarios\": [}'' else py ''{\"scenarios\": []}'')"

definition summary_text :: pystr where
  "summary_text = py ''{\"recipient\":\"Tony\",\"purpose\":\"confirm meeting\",\"result\":\"failure\",\"failureReason\":\"car broken\",\"nextSteps\":\"reschedule\",\"additionalDetails\":\"\"}''"

definition car_stub :: service where
  "car_stub h req =
     (case req of
        SummaryPrompt call_log \<Rightarrow> if contains (py ''car is broken'') call_log then summary_text else []
      | _ \<Rightarrow> [])"

definition empty_world :: world where
  "empty_world = \<lparr>calls = [], stdout = []\<rparr>"

definition plan_example :: json where
  "plan_example = JObject [(py ''scenarios'', JArray [])]"

definition intent_example :: json where
  "intent_example = JObject [(py ''purpose'', JString (py ''renew expired car insurance''))]"

text \<open>
  A text wrapped in a markdown code fence: the opening fence, an optional language tag,
  whitespace, the text, whitespace, the closing fence.
\<close>

definition fenced :: "pystr \<Rightarrow> pystr \<Rightarrow> pystr \<Rightarrow> pystr \<Rightarrow> pystr" where
  "fenced lang sep1 j sep2 = py ''```'' @ lang @ sep1 @ j @ sep2 @ py ''```''"

text \<open>
  The number of backticks (code point 96) at the start of a text; used to reason about
  what \<open>replace\<close> leaves of a run of backticks.
\<close>

fun lead :: "pystr \<Rightarrow> nat" where
  "lead [] = 0"
| "lead (c # cs) = (if c = 96 then Suc (lead cs) else 0)"

section \<open>Properties of the Response Normalizer\<close>

lemma startswith_iff: "startswith s p \<longleftrightarrow> (\<exists>r. s = p @ r)"
  unfolding startswith_def
  by (metis append_eq_conv_conj append_take_drop_id)

lemma contains_iff: "contains sub s \<longleftrightarrow> (\<exists>a b. s = a @ sub @ b)"
proof (induction s)
  case Nil
  then show ?case by auto
next
  case (Cons c cs)
  show ?case
  proof
    assume "contains sub (c # cs)"
    then consider "startswith (c # cs) sub" | "contains sub cs" by auto
    then show "\<exists>a b. c # cs = a @ sub @ b"
    proof cases
      case 1
      then obtain r where "c # cs = [] @ sub @ r"
        unfolding startswith_iff by auto
      then show ?thesis by blast
    next
      case 2
      then obtain a b where "cs = a @ sub @ b" using Cons.IH by blast
      then have "c # cs = (c # a) @ sub @ b" by simp
      then show ?thesis by blast
    qed
  next
    assume "\<exists>a b. c # cs = a @ sub @ b"
    then obtain a b where ab: "c # cs = a @ sub @ b" by blast
    show "contains sub (c # cs)"
    proof (cases a)
      case Nil
      then have "startswith (c # cs) sub" using ab unfolding startswith_iff by auto
      then show ?thesis by simp
    next
      case (Cons x a')
      then have "cs = a' @ sub @ b" using ab by simp
      then show ?thesis using Cons.IH by auto
    qed
  qed
qed

lemma str_replace_absent:
  "old \<noteq> [] \<Longrightarrow> \<not> contains old s \<Longrightarrow> str_replace old new s = s"
  by (induction s) (auto simp: str_replace.simps)

lemma fence_eq: "py ''```'' = [96, 96, 96]"
  by (simp add: py_def)

lemma lead_fence_append: "lead ([96, 96, 96] @ r) = 3 + lead r"
  by simp

lemma startswith_fence_lead: "startswith s [96, 96, 96] \<longleftrightarrow> 3 \<le> lead s"
proof
  assume "startswith s [96, 96, 96]"
  then obtain r where "s = [96, 96, 96] @ r" unfolding startswith_iff by blast
  then show "3 \<le> lead s" by simp
next
  assume l: "3 \<le> lead s"
  then obtain a s1 where s: "s = a # s1" by (cases s) auto
  with l have a: "a = 96" and l1: "2 \<le> lead s1" by (auto split: if_splits)
  then obtain b s2 where s1: "s1 = b # s2" by (cases s1) auto
  with l1 have b: "b = 96" and l2: "1 \<le> lead s2" by (auto split: if_splits)
  then obtain c s3 where s2: "s2 = c # s3" by (cases s2) auto
  with l2 have c: "c = 96" by (auto split: if_splits)
  have "s = [96, 96, 96] @ s3" using s s1 s2 a b c by simp
  then show "startswith s [96, 96, 96]" unfolding startswith_iff by blast
qed

lemma replace_nil: "old \<noteq> [] \<Longrightarrow> str_replace old new [] = []"
  by (simp add: str_replace.simps)

lemma replace_hit:
  "old \<noteq> [] \<Longrightarrow> startswith (c # cs) old \<Longrightarrow>
   str_replace old new (c # cs) = new @ str_replace old new (drop (length old) (c # cs))"
  by (subst str_replace.simps) (simp only: if_True if_False)

lemma replace_miss:
  "old \<noteq> [] \<Longrightarrow> \<not> startswith (c # cs) old \<Longrightarrow>
   str_replace old new (c # cs) = c # str_replace old new cs"
  by (subst str_replace.simps) (simp only: if_True if_False)

lemma lead_replace: "lead (str_replace [96, 96, 96] [] s) = lead s mod 3"
proof (induction s rule: length_induct)
  case (1 s)
  show ?case
  proof (cases s)
    case Nil
    then show ?thesis by (simp add: replace_nil)
  next
    case (Cons c cs)
    show ?thesis
    proof (cases "startswith (c # cs) [96, 96, 96]")
      case True
      then obtain r where r: "c # cs = [96, 96, 96] @ r"
        unfolding startswith_iff by blast
      then have d: "drop (length [96::nat, 96, 96]) (c # cs) = r" by simp
      have l: "lead (c # cs) = 3 + lead r" unfolding r by (rule lead_fence_append)
      have "length r < length s" using r Cons by simp
      then have "lead (str_replace [96, 96, 96] [] r) = lead r mod 3"
        using 1 by blast
      moreover have "str_replace [96, 96, 96] [] (c # cs) = str_replace [96, 96, 96] [] r"
        using replace_hit[OF _ True, of "[]"] d by simp
      ultimately show ?thesis
        unfolding Cons l by simp
    next
      case False
      then have lt: "lead (c # cs) < 3" using startswith_fence_lead[of "c # cs"] by simp
      have ih: "lead (str_replace [96, 96, 96] [] cs) = lead cs mod 3"
        using 1 Cons by simp
      have "str_replace [96, 96, 96] [] (c # cs) = c # str_replace [96, 96, 96] [] cs"
        using replace_miss[OF _ False] by simp
      then show ?thesis
        unfolding Cons
        using lt ih by (cases "c = 96") (simp_all add: mod_Suc)
    qed
  qed
qed

lemma replace_no_fence: "\<not> contains [96, 96, 96] (str_replace [96, 96, 96] [] s)"
proof (induction s rule: length_induct)
  case (1 s)
  show ?case
  proof (cases s)
    case Nil
    then show ?thesis by (simp add: replace_nil)
  next
    case (Cons c cs)
    show ?thesis
    proof (cases "startswith (c # cs) [96, 96, 96]")
      case True
      have "length (drop (length [96::nat, 96, 96]) (c # cs)) < length s" using Cons by simp
      then have "\<not> contains [96, 96, 96]
          (str_replace [96, 96, 96] [] (drop (length [96::nat, 96, 96]) (c # cs)))"
        using 1 by blast
      moreover have "str_replace [96, 96, 96] [] (c # cs) =
          str_replace [96, 96, 96] [] (drop (length [96::nat, 96, 96]) (c # cs))"
        using replace_hit[OF _ True, of "[]"] by simp
      ultimately show ?thesis unfolding Cons by simp
    next
      case False
      then have lt: "lead (c # cs) < 3" using startswith_fence_lead[of "c # cs"] by simp
      have ih: "\<not> contains [96, 96, 96] (str_replace [96, 96, 96] [] cs)"
        using 1 Cons by simp
      have "lead (c # str_replace [96, 96, 96] [] cs) < 3"
        using lt lead_replace[of cs] by (auto split: if_splits)
      then have "\<not> startswith (c # str_replace [96, 96, 96] [] cs) [96, 96, 96]"
        using startswith_fence_lead[of "c # str_replace [96, 96, 96] [] cs"] by simp
      moreover have "str_replace [96, 96, 96] [] (c # cs) = c # str_replace [96, 96, 96] [] cs"
        using replace_miss[OF _ False] by simp
      ultimately show ?thesis
        unfolding Cons using ih by simp
    qed
  qed
qed

lemma not_contains_drop: "\<not> contains sub s \<Longrightarrow> \<not> contains sub (drop n s)"
proof
  assume n: "\<not> contains sub s" and "contains sub (drop n s)"
  then obtain a b where "drop n s = a @ sub @ b" unfolding contains_iff by blast
  then have "s = (take n s @ a) @ sub @ b" by (metis append_take_drop_id append_assoc)
  then show False using n unfolding contains_iff by blast
qed

lemma not_contains_take: "\<not> contains sub s \<Longrightarrow> \<not> contains sub (take n s)"
proof
  assume n: "\<not> contains sub s" and "contains sub (take n s)"
  then obtain a b where "take n s = a @ sub @ b" unfolding contains_iff by blast
  then have "s = a @ sub @ (b @ drop n s)" by (metis append_take_drop_id append_assoc)
  then show False using n unfolding contains_iff by blast
qed

lemma dropWhile_is_drop: "dropWhile P s = drop (length (takeWhile P s)) s"
  by (simp add: dropWhile_eq_drop)

lemma rstrip_is_take: "rstrip s = take (length s - length (takeWhile isspace (rev s))) s"
  unfolding rstrip_def by (simp add: dropWhile_eq_drop rev_drop)

lemma not_contains_lstrip: "\<not> contains sub s \<Longrightarrow> \<not> contains sub (lstrip s)"
  unfolding lstrip_def dropWhile_eq_drop by (rule not_contains_drop)

lemma not_contains_rstrip: "\<not> contains sub s \<Longrightarrow> \<not> contains sub (rstrip s)"
  unfolding rstrip_is_take by (rule not_contains_take)

lemma not_contains_strip: "\<not> contains sub s \<Longrightarrow> \<not> contains sub (strip s)"
  unfolding strip_def by (intro not_contains_rstrip not_contains_lstrip)

lemma not_contains_re_sub: "\<not> contains sub s \<Longrightarrow> \<not> contains sub (re_sub_json s)"
  unfolding re_sub_json_def re_match_json_def Let_def dropWhile_eq_drop
  by (auto split: option.splits if_splits intro!: not_contains_drop)

lemma clean_no_fence: "\<not> contains (py ''```'') (clean_json_output s)"
  unfolding clean_json_output_def Let_def fence_eq
  by (intro not_contains_strip not_contains_re_sub replace_no_fence)

lemma lstrip_not_space: "s = [] \<or> \<not> isspace (hd s) \<Longrightarrow> lstrip s = s"
  unfolding lstrip_def by (cases s) auto

lemma rstrip_idem: "rstrip (rstrip s) = rstrip s"
  unfolding rstrip_def by simp

lemma rstrip_hd:
  assumes "s = [] \<or> \<not> isspace (hd s)"
  shows "rstrip s = [] \<or> \<not> isspace (hd (rstrip s))"
proof (cases "rstrip s = []")
  case True
  then show ?thesis by simp
next
  case False
  then have ne: "s \<noteq> []" unfolding rstrip_def by auto
  have "rstrip s = take (length s - length (takeWhile isspace (rev s))) s"
    by (rule rstrip_is_take)
  then have "hd (rstrip s) = hd s" using False
    by (metis hd_take take_eq_Nil gr0I)
  then show ?thesis using assms ne by simp
qed

lemma lstrip_hd: "lstrip s = [] \<or> \<not> isspace (hd (lstrip s))"
  unfolding lstrip_def by (metis hd_dropWhile)

lemma strip_hd: "strip s = [] \<or> \<not> isspace (hd (strip s))"
  unfolding strip_def by (rule rstrip_hd) (rule lstrip_hd)

lemma lstrip_strip: "lstrip (strip s) = strip s"
  by (rule lstrip_not_space) (rule strip_hd)

lemma strip_idem: "strip (strip s) = strip s"
proof -
  have "strip (strip s) = rstrip (strip s)"
    unfolding strip_def[of "strip s"] lstrip_strip ..
  also have "\<dots> = strip s" unfolding strip_def by (rule rstrip_idem)
  finally show ?thesis .
qed

lemma length_strip: "length (strip s) \<le> length s"
  unfolding strip_def rstrip_def lstrip_def
  by (simp add: dropWhile_eq_drop)

lemma clean_is_strip: "\<exists>x. clean_json_output s = strip x"
  unfolding clean_json_output_def Let_def by blast

lemma re_match_json_shorter:
  assumes "re_match_json s = Some rest"
  shows "length rest < length s"
proof -
  define s1 where "s1 = dropWhile isspace s"
  from assms have m: "list_all2 match_ci ''json'' (take 4 s1)"
    and r: "rest = dropWhile isspace (drop 4 s1)"
    unfolding re_match_json_def s1_def by (auto simp: Let_def split: if_splits)
  from m have "length (take 4 s1) = 4" by (auto dest: list_all2_lengthD)
  then have "4 \<le> length s1" by simp
  moreover have "length s1 \<le> length s"
    unfolding s1_def by (simp add: dropWhile_eq_drop)
  moreover have "length rest \<le> length s1 - 4"
    unfolding r by (simp add: dropWhile_eq_drop)
  ultimately show ?thesis by simp
qed

text \<open>
  Claim C3 (as amended). The normalizer is not idempotent on every text: it removes one
  leading \<open>json\<close> token only, so a second application removes a second one
  (\<open>clean_json_output_not_idempotent\<close>: \<open>json json\<close> becomes \<open>json\<close>, then the empty
  text). Applying it twice equals applying it once exactly when the normalized text does
  not itself begin with a \<open>json\<close> token (in any letter case).
\<close>

theorem clean_json_output_twice:
  "clean_json_output (clean_json_output s) = clean_json_output s
   \<longleftrightarrow> re_match_json (clean_json_output s) = None"
proof -
  define t where "t = clean_json_output s"
  obtain x where x: "t = strip x" unfolding t_def using clean_is_strip by blast
  have "\<not> contains (py ''```'') t" unfolding t_def by (rule clean_no_fence)
  then have rep: "str_replace (py ''```'') [] t = t"
    by (intro str_replace_absent) (simp_all add: py_def)
  have ct: "clean_json_output t = strip (re_sub_json t)"
    unfolding clean_json_output_def[of t] Let_def rep ..
  show ?thesis
  proof (cases "re_match_json t")
    case None
    then have "clean_json_output t = strip t" unfolding ct re_sub_json_def by simp
    then have "clean_json_output t = t" unfolding x strip_idem .
    then show ?thesis using None unfolding t_def by simp
  next
    case (Some rest)
    then have "clean_json_output t = strip rest" unfolding ct re_sub_json_def by simp
    moreover have "length (strip rest) < length t"
      using length_strip[of rest] re_match_json_shorter[OF Some] by simp
    ultimately have "clean_json_output t \<noteq> t" by auto
    then show ?thesis using Some unfolding t_def by simp
  qed
qed

theorem clean_json_output_twice_witness:
  "clean_json_output (clean_json_output (py ''```json {} ```'')) = clean_json_output (py ''```json {} ```'')
   \<and> re_match_json (clean_json_output (py ''```json {} ```'')) = None
   \<and> clean_json_output (py ''```json {} ```'') = py ''{}''"
proof -
  have c: "clean_json_output (py ''```json {} ```'') = py ''{}''" by code_simp
  have "re_match_json (py ''{}'') = None" by code_simp
  then show ?thesis using clean_json_output_twice[of "py ''```json {} ```''"] c by simp
qed

theorem clean_json_output_not_idempotent:
  "clean_json_output (clean_json_output (py ''json json'')) \<noteq> clean_json_output (py ''json json'')"
  by code_simp

text \<open>
  Claim C7. For a text that contains no triple-backtick fence marker and has no leading
  \<open>json\<close> marker (the pattern \<open>^\s*json\s*\<close> does not match, in any letter case),
  the normalizer returns the text with its leading and trailing whitespace trimmed.
\<close>

theorem clean_json_output_plain:
  assumes "\<not> contains (py ''```'') s" and "re_match_json s = None"
  shows "clean_json_output s = strip s"
proof -
  have "str_replace (py ''```'') [] s = s"
    using assms(1) by (intro str_replace_absent) (simp_all add: py_def)
  then show ?thesis
    unfolding clean_json_output_def Let_def re_sub_json_def using assms(2) by simp
qed

theorem clean_json_output_plain_witness:
  "\<not> contains (py ''```'') (py '' {} '') \<and> re_match_json (py '' {} '') = None
   \<and> clean_json_output (py '' {} '') = strip (py '' {} '') \<and> strip (py '' {} '') = py ''{}''"
proof -
  have a: "\<not> contains (py ''```'') (py '' {} '')" by code_simp
  have b: "re_match_json (py '' {} '') = None" by code_simp
  have c: "strip (py '' {} '') = py ''{}''" by code_simp
  show ?thesis using clean_json_output_plain[OF a b] a b c by simp
qed



section \<open>Properties of the stages\<close>

lemma refine_loop_Nil: "refine_loop llm intent [] p w = (Inr p, w)"
  by simp

lemma refine_loop_ok:
  "json_loads (clean_json_output (llm (calls w) (RefinePrompt p intent))) = Some p' \<Longrightarrow>
   refine_loop llm intent (i # is) p w =
     refine_loop llm intent is p' (w\<lparr>calls := calls w @ [RefinePrompt p intent]\<rparr>)"
  by (simp add: chain_run_def)

lemma refine_loop_fail:
  "json_loads (clean_json_output (llm (calls w) (RefinePrompt p intent))) = None \<Longrightarrow>
   refine_loop llm intent (i # is) p w =
     (Inl (ValueError
        (py ''Failed to parse JSON response in iterative_refinement, iteration '' @ str_nat (i + 1))
        (clean_json_output (llm (calls w) (RefinePrompt p intent)))),
      print (PrintText
        (py ''Failed to parse JSON response in iterative_refinement, iteration '' @ str_nat (i + 1)
         @ py '' : '' @ clean_json_output (llm (calls w) (RefinePrompt p intent))))
        (w\<lparr>calls := calls w @ [RefinePrompt p intent]\<rparr>))"
  by (simp add: chain_run_def Let_def)

lemma refine_loop_returns:
  assumes "refine_loop llm intent is p w = (Inr v, w')"
  shows "\<exists>new. calls w' = calls w @ new \<and> length new = length is
            \<and> (\<forall>q\<in>set new. stage_of q = ''iterative_refinement'')
            \<and> (\<forall>k<length new. decodes llm (calls w @ take k new) (new ! k))
            \<and> stdout w' = stdout w
            \<and> (is = [] \<longrightarrow> v = p \<and> w' = w)
            \<and> (is \<noteq> [] \<longrightarrow> (\<exists>prior req. new = prior @ [req]
                  \<and> json_loads (clean_json_output (llm (calls w @ prior) req)) = Some v))"
  using assms
proof (induction "is" arbitrary: p w)
  case Nil
  then show ?case by simp
next
  case (Cons i "is")
  let ?req = "RefinePrompt p intent"
  let ?w1 = "w\<lparr>calls := calls w @ [?req]\<rparr>"
  obtain p' where p': "json_loads (clean_json_output (llm (calls w) ?req)) = Some p'"
    using Cons.prems refine_loop_fail[of llm w p intent i "is"]
    by (cases "json_loads (clean_json_output (llm (calls w) ?req))") auto
  then have run: "refine_loop llm intent is p' ?w1 = (Inr v, w')"
    using Cons.prems refine_loop_ok[of llm w p intent p' i "is"] by simp
  from Cons.IH[OF run] obtain new where new:
    "calls w' = calls ?w1 @ new" "length new = length is"
    "\<forall>q\<in>set new. stage_of q = ''iterative_refinement''"
    "\<forall>k<length new. decodes llm (calls ?w1 @ take k new) (new ! k)"
    "stdout w' = stdout ?w1"
    "is = [] \<longrightarrow> v = p' \<and> w' = ?w1"
    "is \<noteq> [] \<longrightarrow> (\<exists>prior req. new = prior @ [req]
        \<and> json_loads (clean_json_output (llm (calls ?w1 @ prior) req)) = Some v)"
    by blast
  have last: "\<exists>prior req. ?req # new = prior @ [req]
        \<and> json_loads (clean_json_output (llm (calls w @ prior) req)) = Some v"
  proof (cases "is = []")
    case True
    then have "new = []" "v = p'" using new by auto
    then show ?thesis using p' by auto
  next
    case False
    then obtain prior req where "new = prior @ [req]"
      "json_loads (clean_json_output (llm (calls ?w1 @ prior) req)) = Some v"
      using new by blast
    then have "?req # new = (?req # prior) @ [req]
        \<and> json_loads (clean_json_output (llm (calls w @ (?req # prior)) req)) = Some v"
      by simp
    then show ?thesis by blast
  qed
  have dec: "\<forall>k<length (?req # new). decodes llm (calls w @ take k (?req # new)) ((?req # new) ! k)"
  proof (intro allI impI)
    fix k assume k: "k < length (?req # new)"
    show "decodes llm (calls w @ take k (?req # new)) ((?req # new) ! k)"
    proof (cases k)
      case 0
      then show ?thesis using p' by (simp add: decodes_def)
    next
      case (Suc k')
      then have "decodes llm (calls ?w1 @ take k' new) (new ! k')" using new(4) k by simp
      then show ?thesis using Suc by simp
    qed
  qed
  have "calls w' = calls w @ (?req # new)" using new by simp
  moreover have "length (?req # new) = length (i # is)" using new by simp
  moreover have "\<forall>q\<in>set (?req # new). stage_of q = ''iterative_refinement''" using new by simp
  moreover have "stdout w' = stdout w" using new by simp
  ultimately show ?case using last dec by blast
qed

lemma refine_loop_raises:
  assumes "refine_loop llm intent is p w = (Inl e, w')"
  shows "\<exists>prior req. calls w' = calls w @ prior @ [req] \<and> length prior < length is
            \<and> (\<forall>q\<in>set (prior @ [req]). stage_of q = ''iterative_refinement'')
            \<and> (\<forall>k<length prior. decodes llm (calls w @ take k prior) (prior ! k))
            \<and> \<not> decodes llm (calls w @ prior) req
            \<and> e = ValueError
                 (py ''Failed to parse JSON response in iterative_refinement, iteration ''
                    @ str_nat (is ! length prior + 1))
                 (clean_json_output (llm (calls w @ prior) req))
            \<and> stdout w' = stdout w @ [PrintText
                 (py ''Failed to parse JSON response in iterative_refinement, iteration ''
                    @ str_nat (is ! length prior + 1) @ py '' : ''
                    @ clean_json_output (llm (calls w @ prior) req))]"
  using assms
proof (induction "is" arbitrary: p w)
  case Nil
  then show ?case by simp
next
  case (Cons i "is")
  let ?req = "RefinePrompt p intent"
  let ?w1 = "w\<lparr>calls := calls w @ [?req]\<rparr>"
  show ?case
  proof (cases "json_loads (clean_json_output (llm (calls w) ?req))")
    case None
    have "calls w' = calls w @ [] @ [?req] \<and> length ([]::request list) < length (i # is)
            \<and> (\<forall>q\<in>set ([] @ [?req]). stage_of q = ''iterative_refinement'')
            \<and> (\<forall>k<length ([]::request list). decodes llm (calls w @ take k []) ([] ! k))
            \<and> \<not> decodes llm (calls w @ []) ?req
            \<and> e = ValueError
                 (py ''Failed to parse JSON response in iterative_refinement, iteration ''
                    @ str_nat ((i # is) ! length ([]::request list) + 1))
                 (clean_json_output (llm (calls w @ []) ?req))
            \<and> stdout w' = stdout w @ [PrintText
                 (py ''Failed to parse JSON response in iterative_refinement, iteration ''
                    @ str_nat ((i # is) ! length ([]::request list) + 1) @ py '' : ''
                    @ clean_json_output (llm (calls w @ []) ?req))]"
      using Cons.prems None refine_loop_fail[of llm w p intent i "is"]
      by (auto simp: print_def decodes_def)
    then show ?thesis by blast
  next
    case (Some p')
    then have run: "refine_loop llm intent is p' ?w1 = (Inl e, w')"
      using Cons.prems refine_loop_ok[of llm w p intent p' i "is"] by simp
    from Cons.IH[OF run] obtain prior req where d:
      "calls w' = calls ?w1 @ prior @ [req]" "length prior < length is"
      "\<forall>q\<in>set (prior @ [req]). stage_of q = ''iterative_refinement''"
      "\<forall>k<length prior. decodes llm (calls ?w1 @ take k prior) (prior ! k)"
      "\<not> decodes llm (calls ?w1 @ prior) req"
      "e = ValueError
                 (py ''Failed to parse JSON response in iterative_refinement, iteration ''
                    @ str_nat (is ! length prior + 1))
                 (clean_json_output (llm (calls ?w1 @ prior) req))"
      "stdout w' = stdout ?w1 @ [PrintText
                 (py ''Failed to parse JSON response in iterative_refinement, iteration ''
                    @ str_nat (is ! length prior + 1) @ py '' : ''
                    @ clean_json_output (llm (calls ?w1 @ prior) req))]"
      by blast
    have dec: "\<forall>k<length (?req # prior).
        decodes llm (calls w @ take k (?req # prior)) ((?req # prior) ! k)"
    proof (intro allI impI)
      fix k assume k: "k < length (?req # prior)"
      show "decodes llm (calls w @ take k (?req # prior)) ((?req # prior) ! k)"
      proof (cases k)
        case 0
        then show ?thesis using Some by (simp add: decodes_def)
      next
        case (Suc k')
        then have "decodes llm (calls ?w1 @ take k' prior) (prior ! k')" using d(4) k by simp
        then show ?thesis using Suc by simp
      qed
    qed
    have "calls w' = calls w @ (?req # prior) @ [req] \<and> length (?req # prior) < length (i # is)
            \<and> (\<forall>q\<in>set ((?req # prior) @ [req]). stage_of q = ''iterative_refinement'')
            \<and> \<not> decodes llm (calls w @ (?req # prior)) req
            \<and> e = ValueError
                 (py ''Failed to parse JSON response in iterative_refinement, iteration ''
                    @ str_nat ((i # is) ! length (?req # prior) + 1))
                 (clean_json_output (llm (calls w @ (?req # prior)) req))
            \<and> stdout w' = stdout w @ [PrintText
                 (py ''Failed to parse JSON response in iterative_refinement, iteration ''
                    @ str_nat ((i # is) ! length (?req # prior) + 1) @ py '' : ''
                    @ clean_json_output (llm (calls w @ (?req # prior)) req))]"
      using d by simp
    then show ?thesis using dec by blast
  qed
qed

lemma refine_loop_total:
  assumes "\<forall>h q. decodes llm h q"
  shows "\<exists>v w'. refine_loop llm intent is p w = (Inr v, w')"
proof (induction "is" arbitrary: p w)
  case Nil
  then show ?case by simp
next
  case (Cons i "is")
  obtain p' where p': "json_loads (clean_json_output (llm (calls w) (RefinePrompt p intent))) = Some p'"
    using assms unfolding decodes_def by blast
  show ?case
    unfolding refine_loop_ok[of llm w p intent p' i "is", OF p'] by (rule Cons.IH)
qed

lemma py_range_nth: "k < length (py_range n) \<Longrightarrow> py_range n ! k = k"
  unfolding py_range_def by simp

lemma length_py_range: "0 \<le> n \<Longrightarrow> int (length (py_range n)) = n"
  unfolding py_range_def by simp

text \<open>
  Claim C10. With a negative iteration count \<open>range\<close> is empty: the loop body never runs,
  the input plan is returned unchanged, no request is issued and nothing is printed.
\<close>

theorem iterative_refinement_negative:
  "n < 0 \<Longrightarrow> iterative_refinement llm p i n w = (Inr p, w)"
  by (simp add: iterative_refinement_def py_range_def)

theorem iterative_refinement_negative_witness:
  "(-1::int) < 0 \<and>
   iterative_refinement numbered_stub plan_example intent_example (-1) empty_world
     = (Inr plan_example, empty_world)"
  using iterative_refinement_negative[of "-1" numbered_stub plan_example intent_example empty_world]
  by simp

lemma iterative_refinement_returns:
  assumes "0 \<le> n" and r: "iterative_refinement llm p i n w = (Inr v, w')"
  shows "\<exists>new. calls w' = calls w @ new \<and> int (length new) = n
            \<and> (\<forall>q\<in>set new. stage_of q = ''iterative_refinement'')
            \<and> (\<forall>k<length new. decodes llm (calls w @ take k new) (new ! k))"
    and "stdout w' = stdout w"
    and "n = 0 \<longrightarrow> v = p \<and> w' = w"
    and "0 < n \<longrightarrow> (\<exists>prior req. calls w' = calls w @ prior @ [req]
            \<and> json_loads (clean_json_output (llm (calls w @ prior) req)) = Some v)"
proof -
  have rl: "refine_loop llm i (py_range n) p w = (Inr v, w')"
    using r unfolding iterative_refinement_def .
  from refine_loop_returns[OF rl] obtain new where new:
    "calls w' = calls w @ new" "length new = length (py_range n)"
    "\<forall>q\<in>set new. stage_of q = ''iterative_refinement''"
    "\<forall>k<length new. decodes llm (calls w @ take k new) (new ! k)"
    "stdout w' = stdout w"
    "py_range n = [] \<longrightarrow> v = p \<and> w' = w"
    "py_range n \<noteq> [] \<longrightarrow> (\<exists>prior req. new = prior @ [req]
        \<and> json_loads (clean_json_output (llm (calls w @ prior) req)) = Some v)"
    by blast
  show "\<exists>new. calls w' = calls w @ new \<and> int (length new) = n
            \<and> (\<forall>q\<in>set new. stage_of q = ''iterative_refinement'')
            \<and> (\<forall>k<length new. decodes llm (calls w @ take k new) (new ! k))"
    using new length_py_range[OF assms(1)] by auto
  show "stdout w' = stdout w" by (rule new(5))
  show "n = 0 \<longrightarrow> v = p \<and> w' = w"
  proof
    assume "n = 0"
    then have "py_range n = []" unfolding py_range_def by simp
    then show "v = p \<and> w' = w" using new by auto
  qed
  show "0 < n \<longrightarrow> (\<exists>prior req. calls w' = calls w @ prior @ [req]
            \<and> json_loads (clean_json_output (llm (calls w @ prior) req)) = Some v)"
  proof
    assume "0 < n"
    then have "py_range n \<noteq> []" unfolding py_range_def by simp
    then obtain prior req where "new = prior @ [req]"
        "json_loads (clean_json_output (llm (calls w @ prior) req)) = Some v"
      using new by blast
    then show "\<exists>prior req. calls w' = calls w @ prior @ [req]
                \<and> json_loads (clean_json_output (llm (calls w @ prior) req)) = Some v"
      using new(1) by blast
  qed
qed

lemma iterative_refinement_raises:
  assumes "iterative_refinement llm p i n w = (Inl e, w')"
  shows "\<exists>prior req. calls w' = calls w @ prior @ [req] \<and> int (length prior) < n
            \<and> (\<forall>q\<in>set (prior @ [req]). stage_of q = ''iterative_refinement'')
            \<and> (\<forall>k<length prior. decodes llm (calls w @ take k prior) (prior ! k))
            \<and> \<not> decodes llm (calls w @ prior) req
            \<and> e = ValueError
                 (py ''Failed to parse JSON response in iterative_refinement, iteration ''
                    @ str_nat (length prior + 1))
                 (clean_json_output (llm (calls w @ prior) req))
            \<and> stdout w' = stdout w @ [PrintText
                 (py ''Failed to parse JSON response in iterative_refinement, iteration ''
                    @ str_nat (length prior + 1) @ py '' : ''
                    @ clean_json_output (llm (calls w @ prior) req))]"
proof -
  have rl: "refine_loop llm i (py_range n) p w = (Inl e, w')"
    using assms unfolding iterative_refinement_def .
  from refine_loop_raises[OF rl] obtain prior req where d:
      "calls w' = calls w @ prior @ [req]" "length prior < length (py_range n)"
      "\<forall>q\<in>set (prior @ [req]). stage_of q = ''iterative_refinement''"
      "\<forall>k<length prior. decodes llm (calls w @ take k prior) (prior ! k)"
      "\<not> decodes llm (calls w @ prior) req"
      "e = ValueError
                 (py ''Failed to parse JSON response in iterative_refinement, iteration ''
                    @ str_nat (py_range n ! length prior + 1))
                 (clean_json_output (llm (calls w @ prior) req))"
      "stdout w' = stdout w @ [PrintText
                 (py ''Failed to parse JSON response in iterative_refinement, iteration ''
                    @ str_nat (py_range n ! length prior + 1) @ py '' : ''
                    @ clean_json_output (llm (calls w @ prior) req))]"
    by blast
  have nth: "py_range n ! length prior = length prior"
    using d(2) by (rule py_range_nth)
  have "int (length prior) < n" using d(2) unfolding py_range_def by simp
  then show ?thesis using d unfolding nth by blast
qed

lemma iterative_refinement_total:
  "\<forall>h q. decodes llm h q \<Longrightarrow> \<exists>v w'. iterative_refinement llm p i n w = (Inr v, w')"
  unfolding iterative_refinement_def by (rule refine_loop_total)

text \<open>
  Claim C1. For \<open>n \<ge> 0\<close>, a call of \<open>iterative_refinement\<close> that returns has issued exactly
  \<open>n\<close> requests, all of the refinement stage; for \<open>n = 0\<close> it returns the input plan and
  leaves the world as it was (no request), and for \<open>n > 0\<close> the value returned is what
  \<open>json.loads\<close> makes of the normalized response to the last of these requests, and
  nothing else: no earlier plan is part of it. The call does return when every response
  decodes. (When a response does not decode, the call raises at that request, having
  issued at most \<open>n\<close> requests: claims C2 and C5.)
\<close>

theorem iterative_refinement_calls:
  assumes "0 \<le> n"
  shows "(\<forall>v w'. iterative_refinement llm p i n w = (Inr v, w') \<longrightarrow>
            (\<exists>new. calls w' = calls w @ new \<and> int (length new) = n
                \<and> (\<forall>q\<in>set new. stage_of q = ''iterative_refinement''))
          \<and> (n = 0 \<longrightarrow> v = p \<and> w' = w)
          \<and> (0 < n \<longrightarrow> (\<exists>prior req. calls w' = calls w @ prior @ [req]
                \<and> json_loads (clean_json_output (llm (calls w @ prior) req)) = Some v)))
       \<and> (\<forall>e w'. iterative_refinement llm p i n w = (Inl e, w') \<longrightarrow>
            (\<exists>prior req. calls w' = calls w @ prior @ [req] \<and> int (length prior) < n
                \<and> \<not> decodes llm (calls w @ prior) req))
       \<and> ((\<forall>h q. decodes llm h q) \<longrightarrow> (\<exists>v w'. iterative_refinement llm p i n w = (Inr v, w')))"
proof (intro conjI allI impI)
  fix v w' assume r: "iterative_refinement llm p i n w = (Inr v, w')"
  show "\<exists>new. calls w' = calls w @ new \<and> int (length new) = n
                \<and> (\<forall>q\<in>set new. stage_of q = ''iterative_refinement'')"
    using iterative_refinement_returns(1)[OF assms r] by blast
  show "n = 0 \<Longrightarrow> v = p" "n = 0 \<Longrightarrow> w' = w"
    using iterative_refinement_returns(3)[OF assms r] by auto
  show "0 < n \<Longrightarrow> \<exists>prior req. calls w' = calls w @ prior @ [req]
                \<and> json_loads (clean_json_output (llm (calls w @ prior) req)) = Some v"
    using iterative_refinement_returns(4)[OF assms r] by auto
next
  fix e w' assume "iterative_refinement llm p i n w = (Inl e, w')"
  from iterative_refinement_raises[OF this]
  show "\<exists>prior req. calls w' = calls w @ prior @ [req] \<and> int (length prior) < n
                \<and> \<not> decodes llm (calls w @ prior) req"
    by blast
next
  assume "\<forall>h q. decodes llm h q"
  then show "\<exists>v w'. iterative_refinement llm p i n w = (Inr v, w')"
    by (rule iterative_refinement_total)
qed

text \<open>
  A run with two refinements against a service that answers the \<open>k\<close>-th request with
  \<open>{"revision": k}\<close> in a code fence.
\<close>

lemma numbered_run:
  "iterative_refinement numbered_stub plan_example intent_example 2 empty_world
     = (Inr (JObject [(py ''revision'', JInt 1)]),
        \<lparr>calls = [RefinePrompt plan_example intent_example,
                   RefinePrompt (JObject [(py ''revision'', JInt 0)]) intent_example],
          stdout = []\<rparr>)"
  by code_simp


theorem iterative_refinement_calls_witness:
  "(0::int) \<le> 2 \<and>
   iterative_refinement numbered_stub plan_example intent_example 2 empty_world
     = (Inr (JObject [(py ''revision'', JInt 1)]),
        \<lparr>calls = [RefinePrompt plan_example intent_example,
                   RefinePrompt (JObject [(py ''revision'', JInt 0)]) intent_example],
          stdout = []\<rparr>) \<and>
   (\<exists>prior req. [RefinePrompt plan_example intent_example,
                   RefinePrompt (JObject [(py ''revision'', JInt 0)]) intent_example]
        = calls empty_world @ prior @ [req]
      \<and> json_loads (clean_json_output (numbered_stub (calls empty_world @ prior) req))
        = Some (JObject [(py ''revision'', JInt 1)]))"
proof -
  have h: "(0::int) \<le> 2" by simp
  show ?thesis
    using iterative_refinement_calls[OF h, of numbered_stub plan_example intent_example empty_world]
      numbered_run
    by simp
qed


lemma generate_intent_ok:
  "json_loads (clean_json_output (llm (calls w) (IntentPrompt u))) = Some v \<Longrightarrow>
   generate_intent llm u w = (Inr v, w\<lparr>calls := calls w @ [IntentPrompt u]\<rparr>)"
  by (simp add: generate_intent_def chain_run_def Let_def)

lemma generate_intent_fail:
  "json_loads (clean_json_output (llm (calls w) (IntentPrompt u))) = None \<Longrightarrow>
   generate_intent llm u w =
     (Inl (ValueError (py ''Failed to parse JSON response in generate_intent'')
             (clean_json_output (llm (calls w) (IntentPrompt u)))),
      \<lparr>calls = calls w @ [IntentPrompt u],
       stdout = stdout w @ [PrintText (py ''Failed to parse JSON response in generate_intent: ''
                   @ clean_json_output (llm (calls w) (IntentPrompt u)))]\<rparr>)"
  by (simp add: generate_intent_def chain_run_def Let_def print_def)

lemma generate_call_plan_ok:
  "json_loads (clean_json_output (llm (calls w) (PlanningPrompt i))) = Some v \<Longrightarrow>
   generate_call_plan llm i w = (Inr v, w\<lparr>calls := calls w @ [PlanningPrompt i]\<rparr>)"
  by (simp add: generate_call_plan_def chain_run_def Let_def)

lemma generate_call_plan_fail:
  "json_loads (clean_json_output (llm (calls w) (PlanningPrompt i))) = None \<Longrightarrow>
   generate_call_plan llm i w =
     (Inl (ValueError (py ''Failed to parse JSON response in generate_call_plan'')
             (clean_json_output (llm (calls w) (PlanningPrompt i)))),
      \<lparr>calls = calls w @ [PlanningPrompt i],
       stdout = stdout w @ [PrintText (py ''Failed to parse JSON response in generate_call_plan: ''
                   @ clean_json_output (llm (calls w) (PlanningPrompt i)))]\<rparr>)"
  by (simp add: generate_call_plan_def chain_run_def Let_def print_def)

lemma summarize_call_log_ok:
  "json_loads (clean_json_output (llm (calls w) (SummaryPrompt t))) = Some v \<Longrightarrow>
   summarize_call_log llm t w = (Inr v, w\<lparr>calls := calls w @ [SummaryPrompt t]\<rparr>)"
  by (simp add: summarize_call_log_def chain_run_def Let_def)

lemma summarize_call_log_fail:
  "json_loads (clean_json_output (llm (calls w) (SummaryPrompt t))) = None \<Longrightarrow>
   summarize_call_log llm t w =
     (Inl (ValueError (py ''Failed to parse JSON response in summarize_call_log'')
             (clean_json_output (llm (calls w) (SummaryPrompt t)))),
      \<lparr>calls = calls w @ [SummaryPrompt t],
       stdout = stdout w @ [PrintText (py ''Failed to parse JSON response in summarize_call_log: ''
                   @ clean_json_output (llm (calls w) (SummaryPrompt t)))]\<rparr>)"
  by (simp add: summarize_call_log_def chain_run_def Let_def print_def)

lemma py_append: "py (a @ b) = py a @ py b"
  by (simp add: py_def)

text \<open>
  Claim C6. System-Prompt Synthesis issues one request and returns the normalized response
  as a text, whatever the service answers: the stage never gives the text to
  \<open>json.loads\<close>, and its result has no error alternative.
\<close>

theorem create_cot_system_prompt_returns_text:
  "create_cot_system_prompt_from_plan llm plan intent w =
     (clean_json_output (llm (calls w) (SystemPrompt plan intent)),
      w\<lparr>calls := calls w @ [SystemPrompt plan intent]\<rparr>)"
  by (simp add: create_cot_system_prompt_from_plan_def chain_run_def Let_def)

text \<open>A response that is no JSON comes back as it is.\<close>

lemma create_cot_system_prompt_prose:
  "fst (create_cot_system_prompt_from_plan prose_stub plan_example intent_example empty_world)
     = py ''Sure! Here is the plan you asked for.''
   \<and> json_loads (py ''Sure! Here is the plan you asked for.'') = None"
  by code_simp

text \<open>
  Claim C9. No stage looks at the shape of the decoded value: when the normalized response
  is accepted by \<open>json.loads\<close>, \<open>generate_intent\<close>, \<open>generate_call_plan\<close> and
  \<open>summarize_call_log\<close> return exactly the decoded value, whatever it is, and so does a
  single refinement; a run of \<open>n > 0\<close> refinements whose responses all decode returns the
  decoded value of the last response. No error is raised.
\<close>

theorem stages_return_parsed_value:
  "(json_loads (clean_json_output (llm (calls w) (IntentPrompt u))) = Some v \<longrightarrow>
      generate_intent llm u w = (Inr v, w\<lparr>calls := calls w @ [IntentPrompt u]\<rparr>))
   \<and> (json_loads (clean_json_output (llm (calls w) (PlanningPrompt i))) = Some v \<longrightarrow>
      generate_call_plan llm i w = (Inr v, w\<lparr>calls := calls w @ [PlanningPrompt i]\<rparr>))
   \<and> (json_loads (clean_json_output (llm (calls w) (RefinePrompt p i))) = Some v \<longrightarrow>
      iterative_refinement llm p i 1 w = (Inr v, w\<lparr>calls := calls w @ [RefinePrompt p i]\<rparr>))
   \<and> (0 < n \<and> (\<forall>h q. decodes llm h q) \<longrightarrow>
      (\<exists>v' w' prior req. iterative_refinement llm p i n w = (Inr v', w')
         \<and> calls w' = calls w @ prior @ [req]
         \<and> json_loads (clean_json_output (llm (calls w @ prior) req)) = Some v'))
   \<and> (json_loads (clean_json_output (llm (calls w) (SummaryPrompt t))) = Some v \<longrightarrow>
      summarize_call_log llm t w = (Inr v, w\<lparr>calls := calls w @ [SummaryPrompt t]\<rparr>))"
proof (intro conjI impI)
  assume "json_loads (clean_json_output (llm (calls w) (RefinePrompt p i))) = Some v"
  then show "iterative_refinement llm p i 1 w = (Inr v, w\<lparr>calls := calls w @ [RefinePrompt p i]\<rparr>)"
    unfolding iterative_refinement_def py_range_def
    using refine_loop_ok[of llm w p i v 0 "[]"] by simp
next
  assume a: "0 < n \<and> (\<forall>h q. decodes llm h q)"
  then obtain v' w' where r: "iterative_refinement llm p i n w = (Inr v', w')"
    using iterative_refinement_total by blast
  have "0 \<le> n" using a by simp
  from iterative_refinement_returns(4)[OF this r] a
  show "\<exists>v' w' prior req. iterative_refinement llm p i n w = (Inr v', w')
         \<and> calls w' = calls w @ prior @ [req]
         \<and> json_loads (clean_json_output (llm (calls w @ prior) req)) = Some v'"
    using r by blast
qed (simp_all add: generate_intent_ok generate_call_plan_ok summarize_call_log_ok)

theorem stages_return_parsed_value_witness:
  "json_loads (clean_json_output (array_stub (calls empty_world) (IntentPrompt user_input_example)))
     = Some (JArray [JInt 1, JString (py ''two''), JNull])
   \<and> generate_intent array_stub user_input_example empty_world
     = (Inr (JArray [JInt 1, JString (py ''two''), JNull]),
        empty_world\<lparr>calls := calls empty_world @ [IntentPrompt user_input_example]\<rparr>)"
proof -
  have h: "json_loads (clean_json_output (array_stub (calls empty_world) (IntentPrompt user_input_example)))
     = Some (JArray [JInt 1, JString (py ''two''), JNull])"
    by code_simp
  show ?thesis
    using stages_return_parsed_value[where llm=array_stub and w=empty_world
        and u=user_input_example and v="JArray [JInt 1, JString (py ''two''), JNull]"] h
    by simp
qed

text \<open>
  Claim C2. In every decoding stage, a response whose normalized text \<open>json.loads\<close> refuses
  makes the stage fail: it returns no value, it raises a \<open>ValueError\<close> whose message ends
  with the name of the stage (for a refinement, followed by the number of the iteration,
  counted from 1), raised while the decode error that holds the normalized text is being
  handled, and before that it prints the same message with the normalized text attached.
\<close>

theorem stages_fail_with_decode_error:
  "(json_loads (clean_json_output (llm (calls w) (IntentPrompt u))) = None \<longrightarrow>
      generate_intent llm u w =
        (Inl (ValueError (py (''Failed to parse JSON response in '' @ stage_of (IntentPrompt u)))
                (clean_json_output (llm (calls w) (IntentPrompt u)))),
         \<lparr>calls = calls w @ [IntentPrompt u],
          stdout = stdout w @ [PrintText
             (py (''Failed to parse JSON response in '' @ stage_of (IntentPrompt u) @ '': '')
              @ clean_json_output (llm (calls w) (IntentPrompt u)))]\<rparr>))
   \<and> (json_loads (clean_json_output (llm (calls w) (PlanningPrompt i))) = None \<longrightarrow>
      generate_call_plan llm i w =
        (Inl (ValueError (py (''Failed to parse JSON response in '' @ stage_of (PlanningPrompt i)))
                (clean_json_output (llm (calls w) (PlanningPrompt i)))),
         \<lparr>calls = calls w @ [PlanningPrompt i],
          stdout = stdout w @ [PrintText
             (py (''Failed to parse JSON response in '' @ stage_of (PlanningPrompt i) @ '': '')
              @ clean_json_output (llm (calls w) (PlanningPrompt i)))]\<rparr>))
   \<and> (json_loads (clean_json_output (llm (calls w) (RefinePrompt p i))) = None \<longrightarrow>
      refine_loop llm i (k # ks) p w =
        (Inl (ValueError
                (py (''Failed to parse JSON response in '' @ stage_of (RefinePrompt p i) @ '', iteration '')
                 @ str_nat (k + 1))
                (clean_json_output (llm (calls w) (RefinePrompt p i)))),
         \<lparr>calls = calls w @ [RefinePrompt p i],
          stdout = stdout w @ [PrintText
             (py (''Failed to parse JSON response in '' @ stage_of (RefinePrompt p i) @ '', iteration '')
              @ str_nat (k + 1) @ py '' : ''
              @ clean_json_output (llm (calls w) (RefinePrompt p i)))]\<rparr>))
   \<and> (\<forall>e w'. iterative_refinement llm p i n w = (Inl e, w') \<longrightarrow>
        (\<exists>prior req. calls w' = calls w @ prior @ [req]
           \<and> json_loads (clean_json_output (llm (calls w @ prior) req)) = None
           \<and> e = ValueError
                 (py (''Failed to parse JSON response in '' @ stage_of req @ '', iteration '')
                  @ str_nat (length prior + 1))
                 (clean_json_output (llm (calls w @ prior) req))
           \<and> stdout w' = stdout w @ [PrintText
                 (py (''Failed to parse JSON response in '' @ stage_of req @ '', iteration '')
                  @ str_nat (length prior + 1) @ py '' : ''
                  @ clean_json_output (llm (calls w @ prior) req))]))
   \<and> (json_loads (clean_json_output (llm (calls w) (SummaryPrompt t))) = None \<longrightarrow>
      summarize_call_log llm t w =
        (Inl (ValueError (py (''Failed to parse JSON response in '' @ stage_of (SummaryPrompt t)))
                (clean_json_output (llm (calls w) (SummaryPrompt t)))),
         \<lparr>calls = calls w @ [SummaryPrompt t],
          stdout = stdout w @ [PrintText
             (py (''Failed to parse JSON response in '' @ stage_of (SummaryPrompt t) @ '': '')
              @ clean_json_output (llm (calls w) (SummaryPrompt t)))]\<rparr>))"
proof (intro conjI impI allI)
  assume "json_loads (clean_json_output (llm (calls w) (IntentPrompt u))) = None"
  then show "generate_intent llm u w =
        (Inl (ValueError (py (''Failed to parse JSON response in '' @ stage_of (IntentPrompt u)))
                (clean_json_output (llm (calls w) (IntentPrompt u)))),
         \<lparr>calls = calls w @ [IntentPrompt u],
          stdout = stdout w @ [PrintText
             (py (''Failed to parse JSON response in '' @ stage_of (IntentPrompt u) @ '': '')
              @ clean_json_output (llm (calls w) (IntentPrompt u)))]\<rparr>)"
    by (simp add: generate_intent_fail)
next
  assume "json_loads (clean_json_output (llm (calls w) (PlanningPrompt i))) = None"
  then show "generate_call_plan llm i w =
        (Inl (ValueError (py (''Failed to parse JSON response in '' @ stage_of (PlanningPrompt i)))
                (clean_json_output (llm (calls w) (PlanningPrompt i)))),
         \<lparr>calls = calls w @ [PlanningPrompt i],
          stdout = stdout w @ [PrintText
             (py (''Failed to parse JSON response in '' @ stage_of (PlanningPrompt i) @ '': '')
              @ clean_json_output (llm (calls w) (PlanningPrompt i)))]\<rparr>)"
    by (simp add: generate_call_plan_fail)
next
  assume "json_loads (clean_json_output (llm (calls w) (RefinePrompt p i))) = None"
  then show "refine_loop llm i (k # ks) p w =
        (Inl (ValueError
                (py (''Failed to parse JSON response in '' @ stage_of (RefinePrompt p i) @ '', iteration '')
                 @ str_nat (k + 1))
                (clean_json_output (llm (calls w) (RefinePrompt p i)))),
         \<lparr>calls = calls w @ [RefinePrompt p i],
          stdout = stdout w @ [PrintText
             (py (''Failed to parse JSON response in '' @ stage_of (RefinePrompt p i) @ '', iteration '')
              @ str_nat (k + 1) @ py '' : ''
              @ clean_json_output (llm (calls w) (RefinePrompt p i)))]\<rparr>)"
    using refine_loop_fail[of llm w p i k ks] by (simp add: print_def)
next
  fix e w' assume "iterative_refinement llm p i n w = (Inl e, w')"
  from iterative_refinement_raises[OF this] obtain prior req where d:
    "calls w' = calls w @ prior @ [req]"
    "\<forall>q\<in>set (prior @ [req]). stage_of q = ''iterative_refinement''"
    "\<not> decodes llm (calls w @ prior) req"
    "e = ValueError
                 (py ''Failed to parse JSON response in iterative_refinement, iteration ''
                    @ str_nat (length prior + 1))
                 (clean_json_output (llm (calls w @ prior) req))"
    "stdout w' = stdout w @ [PrintText
                 (py ''Failed to parse JSON response in iterative_refinement, iteration ''
                    @ str_nat (length prior + 1) @ py '' : ''
                    @ clean_json_output (llm (calls w @ prior) req))]"
    by blast
  have st: "stage_of req = ''iterative_refinement''" using d(2) by simp
  have "calls w' = calls w @ prior @ [req]
           \<and> json_loads (clean_json_output (llm (calls w @ prior) req)) = None
           \<and> e = ValueError
                 (py (''Failed to parse JSON response in '' @ stage_of req @ '', iteration '')
                  @ str_nat (length prior + 1))
                 (clean_json_output (llm (calls w @ prior) req))
           \<and> stdout w' = stdout w @ [PrintText
                 (py (''Failed to parse JSON response in '' @ stage_of req @ '', iteration '')
                  @ str_nat (length prior + 1) @ py '' : ''
                  @ clean_json_output (llm (calls w @ prior) req))]"
    using d(1,3,4,5) unfolding st decodes_def by simp
  then show "\<exists>prior req. calls w' = calls w @ prior @ [req]
           \<and> json_loads (clean_json_output (llm (calls w @ prior) req)) = None
           \<and> e = ValueError
                 (py (''Failed to parse JSON response in '' @ stage_of req @ '', iteration '')
                  @ str_nat (length prior + 1))
                 (clean_json_output (llm (calls w @ prior) req))
           \<and> stdout w' = stdout w @ [PrintText
                 (py (''Failed to parse JSON response in '' @ stage_of req @ '', iteration '')
                  @ str_nat (length prior + 1) @ py '' : ''
                  @ clean_json_output (llm (calls w @ prior) req))]"
    by blast
next
  assume "json_loads (clean_json_output (llm (calls w) (SummaryPrompt t))) = None"
  then show "summarize_call_log llm t w =
        (Inl (ValueError (py (''Failed to parse JSON response in '' @ stage_of (SummaryPrompt t)))
                (clean_json_output (llm (calls w) (SummaryPrompt t)))),
         \<lparr>calls = calls w @ [SummaryPrompt t],
          stdout = stdout w @ [PrintText
             (py (''Failed to parse JSON response in '' @ stage_of (SummaryPrompt t) @ '': '')
              @ clean_json_output (llm (calls w) (SummaryPrompt t)))]\<rparr>)"
    by (simp add: summarize_call_log_fail)
qed

theorem stages_fail_with_decode_error_witness:
  "json_loads (clean_json_output (prose_stub (calls empty_world) (SummaryPrompt call_record_example))) = None
   \<and> summarize_call_log prose_stub call_record_example empty_world =
        (Inl (ValueError (py ''Failed to parse JSON response in summarize_call_log'')
                (py ''Sure! Here is the plan you asked for.'')),
         \<lparr>calls = [SummaryPrompt call_record_example],
          stdout = [PrintText
             (py ''Failed to parse JSON response in summarize_call_log: Sure! Here is the plan you asked for.'')]\<rparr>)"
proof -
  have c: "clean_json_output (prose_stub (calls empty_world) (SummaryPrompt call_record_example))
      = py ''Sure! Here is the plan you asked for.''"
    by code_simp
  have h: "json_loads (clean_json_output (prose_stub (calls empty_world) (SummaryPrompt call_record_example))) = None"
    unfolding c by code_simp
  show ?thesis
    using stages_fail_with_decode_error[where llm=prose_stub and w=empty_world and t=call_record_example] h
    unfolding c by (simp add: empty_world_def py_def)
qed



lemma summary_text_loads:
  "json_loads (clean_json_output summary_text) =
     Some (JObject
       [(py ''recipient'', JString (py ''Tony'')),
        (py ''purpose'', JString (py ''confirm meeting'')),
        (py ''result'', JString (py ''failure'')),
        (py ''failureReason'', JString (py ''car broken'')),
        (py ''nextSteps'', JString (py ''reschedule'')),
        (py ''additionalDetails'', JString [])])"
  by code_simp

text \<open>
  Claim C8. Against a Completion Service that answers every summary request whose transcript
  contains \<open>car is broken\<close> with the JSON text of the scenario, \<open>summarize_call_log\<close> on
  such a transcript returns a summary whose \<open>result\<close> is \<open>failure\<close> and whose failure
  reason, stored under the key \<open>failureReason\<close> that the text uses, is \<open>car broken\<close>.
\<close>

theorem summarize_call_log_car_broken:
  assumes "\<forall>h t. contains (py ''car is broken'') t \<longrightarrow> llm h (SummaryPrompt t) = summary_text"
    and "contains (py ''car is broken'') call_log"
  shows "\<exists>summary. summarize_call_log llm call_log w
            = (Inr summary, w\<lparr>calls := calls w @ [SummaryPrompt call_log]\<rparr>)
          \<and> dict_get summary (py ''result'') = Some (JString (py ''failure''))
          \<and> dict_get summary (py ''failureReason'') = Some (JString (py ''car broken''))"
proof -
  let ?summary = "JObject
       [(py ''recipient'', JString (py ''Tony'')),
        (py ''purpose'', JString (py ''confirm meeting'')),
        (py ''result'', JString (py ''failure'')),
        (py ''failureReason'', JString (py ''car broken'')),
        (py ''nextSteps'', JString (py ''reschedule'')),
        (py ''additionalDetails'', JString [])]"
  have "llm (calls w) (SummaryPrompt call_log) = summary_text" using assms by blast
  then have "json_loads (clean_json_output (llm (calls w) (SummaryPrompt call_log))) = Some ?summary"
    using summary_text_loads by simp
  then have "summarize_call_log llm call_log w
      = (Inr ?summary, w\<lparr>calls := calls w @ [SummaryPrompt call_log]\<rparr>)"
    by (rule summarize_call_log_ok)
  moreover have "dict_get ?summary (py ''result'') = Some (JString (py ''failure''))"
    by (simp add: py_def)
  moreover have "dict_get ?summary (py ''failureReason'') = Some (JString (py ''car broken''))"
    by (simp add: py_def)
  ultimately show ?thesis by blast
qed

lemma contains_concat:
  assumes "x \<in> set xs" and "contains sub x"
  shows "contains sub (concat xs)"
proof -
  obtain ys zs where xs: "xs = ys @ x # zs" using assms(1) by (meson split_list)
  obtain a b where x: "x = a @ sub @ b" using assms(2) unfolding contains_iff by blast
  have "concat xs = (concat ys @ a) @ sub @ (b @ concat zs)" unfolding xs x by simp
  then show ?thesis unfolding contains_iff by blast
qed

lemma call_record_mentions_car: "contains (py ''car is broken'') call_record_example"
proof -
  let ?l = "''Because my car is broken, so can we make another appointment next week?''"
  have "contains (py ''car is broken'') (py ?l @ [10])" by code_simp
  then show ?thesis
    unfolding call_record_example_def
    by (rule contains_concat[rotated]) simp
qed

theorem summarize_call_log_car_broken_witness:
  "contains (py ''car is broken'') call_record_example
   \<and> car_stub [] (SummaryPrompt call_record_example) = summary_text
   \<and> (\<exists>summary. summarize_call_log car_stub call_record_example empty_world
            = (Inr summary, empty_world\<lparr>calls := calls empty_world @ [SummaryPrompt call_record_example]\<rparr>)
          \<and> dict_get summary (py ''result'') = Some (JString (py ''failure''))
          \<and> dict_get summary (py ''failureReason'') = Some (JString (py ''car broken'')))"
proof -
  have a: "\<forall>h t. contains (py ''car is broken'') t \<longrightarrow> car_stub h (SummaryPrompt t) = summary_text"
    by (simp add: car_stub_def)
  show ?thesis
    using summarize_call_log_car_broken[OF a call_record_mentions_car, of empty_world]
      a call_record_mentions_car
    by blast
qed



lemma calls_print: "calls (print x w) = calls w"
  by (simp add: print_def)

lemma planner_main_raises:
  assumes "planner_main llm w = (Inl e, w')"
  shows "\<exists>prior req. calls w' = calls w @ prior @ [req]
           \<and> (\<forall>k<length prior. decodes llm (calls w @ take k prior) (prior ! k))
           \<and> \<not> decodes llm (calls w @ prior) req
           \<and> (\<exists>msg. e = ValueError msg (clean_json_output (llm (calls w @ prior) req)))
           \<and> map stage_of (prior @ [req]) = take (length prior + 1) pipeline
           \<and> length prior < 5"
proof -
  let ?r1 = "IntentPrompt user_input_example"
  show ?thesis
  proof (cases "json_loads (clean_json_output (llm (calls w) ?r1))")
    case None
    have "planner_main llm w = (Inl (ValueError (py ''Failed to parse JSON response in generate_intent'')
             (clean_json_output (llm (calls w) ?r1))),
      \<lparr>calls = calls w @ [?r1],
       stdout = stdout w @ [PrintText (py ''Failed to parse JSON response in generate_intent: ''
                   @ clean_json_output (llm (calls w) ?r1))]\<rparr>)"
      unfolding planner_main_def generate_intent_fail[of llm w user_input_example, OF None] by simp
    then have "calls w' = calls w @ [] @ [?r1]
           \<and> (\<forall>k<length ([]::request list). decodes llm (calls w @ take k []) ([] ! k))
           \<and> \<not> decodes llm (calls w @ []) ?r1
           \<and> (\<exists>msg. e = ValueError msg (clean_json_output (llm (calls w @ []) ?r1)))
           \<and> map stage_of ([] @ [?r1]) = take (length ([]::request list) + 1) pipeline
           \<and> length ([]::request list) < 5"
      using assms None by (auto simp: decodes_def pipeline_def)
    then show ?thesis by blast
  next
    case (Some intent)
    let ?w1 = "w\<lparr>calls := calls w @ [?r1]\<rparr>"
    let ?w2 = "print (PrintJson intent) (print (PrintText (10 # py ''[Generated Intent]'')) ?w1)"
    let ?r2 = "PlanningPrompt intent"
    have c2: "calls ?w2 = calls w @ [?r1]" by (simp add: calls_print)
    have d1: "decodes llm (calls w) ?r1" using Some by (simp add: decodes_def)
    have m1: "planner_main llm w =
       (case generate_call_plan llm intent ?w2 of
               (Inl e, w) \<Rightarrow> (Inl e, w)
             | (Inr initial_plan, w) \<Rightarrow>
                 let w = print (PrintText (10 # py ''[Initial Call Plan]'')) w;
                     w = print (PrintJson initial_plan) w
                 in case iterative_refinement llm initial_plan intent 3 w of
                      (Inl e, w) \<Rightarrow> (Inl e, w)
                    | (Inr refined_plan, w) \<Rightarrow>
                        let w = print (PrintText (10 # py ''[Refined Call Plan]'')) w;
                            w = print (PrintJson refined_plan) w;
                            (final_system_prompt, w) =
                               create_cot_system_prompt_from_plan llm refined_plan intent w;
                            w = print (PrintText (10 # py ''[Final System Prompt]'')) w;
                            w = print (PrintText final_system_prompt) w
                        in (Inr (), w))"
      unfolding planner_main_def generate_intent_ok[of llm w user_input_example, OF Some]
      by (simp add: Let_def)
    show ?thesis
    proof (cases "json_loads (clean_json_output (llm (calls ?w2) ?r2))")
      case None
      have "planner_main llm w = (Inl (ValueError (py ''Failed to parse JSON response in generate_call_plan'')
             (clean_json_output (llm (calls ?w2) ?r2))),
           \<lparr>calls = calls ?w2 @ [?r2],
            stdout = stdout ?w2 @ [PrintText (py ''Failed to parse JSON response in generate_call_plan: ''
                   @ clean_json_output (llm (calls ?w2) ?r2))]\<rparr>)"
        unfolding m1 generate_call_plan_fail[of llm ?w2 intent, OF None] by simp
      then have "calls w' = calls w @ [?r1] @ [?r2]
           \<and> (\<forall>k<length [?r1]. decodes llm (calls w @ take k [?r1]) ([?r1] ! k))
           \<and> \<not> decodes llm (calls w @ [?r1]) ?r2
           \<and> (\<exists>msg. e = ValueError msg (clean_json_output (llm (calls w @ [?r1]) ?r2)))
           \<and> map stage_of ([?r1] @ [?r2]) = take (length [?r1] + 1) pipeline
           \<and> length [?r1] < 5"
        using assms None d1 unfolding c2 by (auto simp: decodes_def pipeline_def)
      then show ?thesis by blast
    next
      case (Some plan)
      let ?w3 = "?w2\<lparr>calls := calls ?w2 @ [?r2]\<rparr>"
      let ?w4 = "print (PrintJson plan) (print (PrintText (10 # py ''[Initial Call Plan]'')) ?w3)"
      have c4: "calls ?w4 = calls w @ [?r1, ?r2]" by (simp add: calls_print)
      have d2: "decodes llm (calls w @ [?r1]) ?r2" using Some unfolding c2 by (simp add: decodes_def)
      have m2: "planner_main llm w =
         (case iterative_refinement llm plan intent 3 ?w4 of
                      (Inl e, w) \<Rightarrow> (Inl e, w)
                    | (Inr refined_plan, w) \<Rightarrow>
                        let w = print (PrintText (10 # py ''[Refined Call Plan]'')) w;
                            w = print (PrintJson refined_plan) w;
                            (final_system_prompt, w) =
                               create_cot_system_prompt_from_plan llm refined_plan intent w;
                            w = print (PrintText (10 # py ''[Final System Prompt]'')) w;
                            w = print (PrintText final_system_prompt) w
                        in (Inr (), w))"
        unfolding m1 generate_call_plan_ok[of llm ?w2 intent, OF Some] by (simp add: Let_def)
      obtain r w5 where it: "iterative_refinement llm plan intent 3 ?w4 = (r, w5)"
        by (cases "iterative_refinement llm plan intent 3 ?w4") auto
      show ?thesis
      proof (cases r)
        case (Inr refined_plan)
        then have "fst (planner_main llm w) = Inr ()"
          unfolding m2 it by (simp add: Let_def split: prod.splits)
        then show ?thesis using assms by simp
      next
        case (Inl e')
        then have "planner_main llm w = (Inl e', w5)" unfolding m2 it by simp
        then have e: "e = e'" and w: "w' = w5" using assms by auto
        from iterative_refinement_raises[OF it[unfolded Inl]] obtain prior req where d:
          "calls w5 = calls ?w4 @ prior @ [req]" "int (length prior) < 3"
          "\<forall>q\<in>set (prior @ [req]). stage_of q = ''iterative_refinement''"
          "\<forall>k<length prior. decodes llm (calls ?w4 @ take k prior) (prior ! k)"
          "\<not> decodes llm (calls ?w4 @ prior) req"
          "\<exists>msg. e' = ValueError msg (clean_json_output (llm (calls ?w4 @ prior) req))"
          by blast
        let ?prior = "?r1 # ?r2 # prior"
        have a1: "calls w' = calls w @ ?prior @ [req]" using d(1) w unfolding c4 by simp
        have a2: "\<forall>k<length ?prior. decodes llm (calls w @ take k ?prior) (?prior ! k)"
        proof (intro allI impI)
          fix k assume k: "k < length ?prior"
          consider "k = 0" | "k = 1" | k' where "k = Suc (Suc k')" "k' < length prior"
            using k by (cases k; cases "k - 1") auto
          then show "decodes llm (calls w @ take k ?prior) (?prior ! k)"
          proof cases
            case 1 then show ?thesis using d1 by simp
          next
            case 2 then show ?thesis using d2 by simp
          next
            case 3
            then have "decodes llm (calls ?w4 @ take k' prior) (prior ! k')" using d(4) by blast
            then show ?thesis using 3 unfolding c4 by simp
          qed
        qed
        have a3: "\<not> decodes llm (calls w @ ?prior) req" using d(5) unfolding c4 by simp
        have a4: "\<exists>msg. e = ValueError msg (clean_json_output (llm (calls w @ ?prior) req))"
          using d(6) e unfolding c4 by simp
        have "map stage_of (prior @ [req]) = replicate (length prior + 1) ''iterative_refinement''"
          by (rule replicate_eqI) (use d(3) in auto)
        moreover have "length prior < 3" using d(2) by simp
        ultimately have a5: "map stage_of (?prior @ [req]) = take (length ?prior + 1) pipeline"
          unfolding pipeline_def
          by (cases "length prior"; cases "length prior - 1"; cases "length prior - 2")
             (auto simp: numeral_eq_Suc)
        have a6: "length ?prior < 5" using \<open>length prior < 3\<close> by simp
        show ?thesis using a1 a2 a3 a4 a5 a6 by blast
      qed
    qed
  qed
qed


lemma iteration_message:
  "py ''Failed to parse JSON response in iterative_refinement, iteration '' @ str_nat (0 + 1)
     = py ''Failed to parse JSON response in iterative_refinement, iteration 1''"
  "py ''Failed to parse JSON response in iterative_refinement, iteration '' @ str_nat (1 + 1)
     = py ''Failed to parse JSON response in iterative_refinement, iteration 2''"
  "py ''Failed to parse JSON response in iterative_refinement, iteration '' @ str_nat (2 + 1)
     = py ''Failed to parse JSON response in iterative_refinement, iteration 3''"
  by (simp_all add: str_nat.simps py_def)

lemma refine_loop_fail_fst:
  assumes "json_loads (clean_json_output (llm (calls w) (RefinePrompt p intent))) = None"
  shows "fst (refine_loop llm intent (i # ks) p w) =
           Inl (ValueError
             (py ''Failed to parse JSON response in iterative_refinement, iteration '' @ str_nat (i + 1))
             (clean_json_output (llm (calls w) (RefinePrompt p intent))))"
    and "calls (snd (refine_loop llm intent (i # ks) p w)) = calls w @ [RefinePrompt p intent]"
  using refine_loop_fail[of llm w p intent i ks] assms by (simp_all add: print_def)

lemma planner_main_run:
  assumes run: "planner_main llm w = (r, w')"
  shows
   "let r1 = IntentPrompt user_input_example;
        t1 = clean_json_output (llm (calls w) r1)
    in case json_loads t1 of
         None \<Rightarrow>
           r = Inl (ValueError (py ''Failed to parse JSON response in generate_intent'') t1)
           \<and> calls w' = calls w @ [r1]
       | Some intent \<Rightarrow>
           let r2 = PlanningPrompt intent;
               t2 = clean_json_output (llm (calls w @ [r1]) r2)
           in case json_loads t2 of
                None \<Rightarrow>
                  r = Inl (ValueError (py ''Failed to parse JSON response in generate_call_plan'') t2)
                  \<and> calls w' = calls w @ [r1, r2]
              | Some plan \<Rightarrow>
                  let r3 = RefinePrompt plan intent;
                      t3 = clean_json_output (llm (calls w @ [r1, r2]) r3)
                  in case json_loads t3 of
                       None \<Rightarrow>
                         r = Inl (ValueError
                               (py ''Failed to parse JSON response in iterative_refinement, iteration 1'') t3)
                         \<and> calls w' = calls w @ [r1, r2, r3]
                     | Some plan1 \<Rightarrow>
                         let r4 = RefinePrompt plan1 intent;
                             t4 = clean_json_output (llm (calls w @ [r1, r2, r3]) r4)
                         in case json_loads t4 of
                              None \<Rightarrow>
                                r = Inl (ValueError
                                      (py ''Failed to parse JSON response in iterative_refinement, iteration 2'') t4)
                                \<and> calls w' = calls w @ [r1, r2, r3, r4]
                            | Some plan2 \<Rightarrow>
                                let r5 = RefinePrompt plan2 intent;
                                    t5 = clean_json_output (llm (calls w @ [r1, r2, r3, r4]) r5)
                                in case json_loads t5 of
                                     None \<Rightarrow>
                                       r = Inl (ValueError
                                             (py ''Failed to parse JSON response in iterative_refinement, iteration 3'') t5)
                                       \<and> calls w' = calls w @ [r1, r2, r3, r4, r5]
                                   | Some plan3 \<Rightarrow>
                                       r = Inr ()
                                       \<and> calls w' = calls w @ [r1, r2, r3, r4, r5, SystemPrompt plan3 intent]"
proof -
  let ?r1 = "IntentPrompt user_input_example"
  let ?t1 = "clean_json_output (llm (calls w) ?r1)"
  show ?thesis
  proof (cases "json_loads ?t1")
    case None
    have "planner_main llm w = (Inl (ValueError (py ''Failed to parse JSON response in generate_intent'') ?t1),
      \<lparr>calls = calls w @ [?r1],
       stdout = stdout w @ [PrintText (py ''Failed to parse JSON response in generate_intent: '' @ ?t1)]\<rparr>)"
      unfolding planner_main_def generate_intent_fail[of llm w user_input_example, OF None] by simp
    then show ?thesis using run None by (simp add: Let_def)
  next
    case (Some intent)
    note s1 = Some
    let ?w1 = "w\<lparr>calls := calls w @ [?r1]\<rparr>"
    let ?w2 = "print (PrintJson intent) (print (PrintText (10 # py ''[Generated Intent]'')) ?w1)"
    let ?r2 = "PlanningPrompt intent"
    let ?t2 = "clean_json_output (llm (calls w @ [?r1]) ?r2)"
    have c2: "calls ?w2 = calls w @ [?r1]" by (simp add: calls_print)
    have m1: "planner_main llm w =
       (case generate_call_plan llm intent ?w2 of
               (Inl e, w) \<Rightarrow> (Inl e, w)
             | (Inr initial_plan, w) \<Rightarrow>
                 let w = print (PrintText (10 # py ''[Initial Call Plan]'')) w;
                     w = print (PrintJson initial_plan) w
                 in case iterative_refinement llm initial_plan intent 3 w of
                      (Inl e, w) \<Rightarrow> (Inl e, w)
                    | (Inr refined_plan, w) \<Rightarrow>
                        let w = print (PrintText (10 # py ''[Refined Call Plan]'')) w;
                            w = print (PrintJson refined_plan) w;
                            (final_system_prompt, w) =
                               create_cot_system_prompt_from_plan llm refined_plan intent w;
                            w = print (PrintText (10 # py ''[Final System Prompt]'')) w;
                            w = print (PrintText final_system_prompt) w
                        in (Inr (), w))"
      unfolding planner_main_def generate_intent_ok[of llm w user_input_example, OF Some]
      by (simp add: Let_def)
    show ?thesis
    proof (cases "json_loads ?t2")
      case None
      then have n: "json_loads (clean_json_output (llm (calls ?w2) ?r2)) = None" unfolding c2 .
      have "planner_main llm w = (Inl (ValueError (py ''Failed to parse JSON response in generate_call_plan'')
             (clean_json_output (llm (calls ?w2) ?r2))),
           \<lparr>calls = calls ?w2 @ [?r2],
            stdout = stdout ?w2 @ [PrintText (py ''Failed to parse JSON response in generate_call_plan: ''
                   @ clean_json_output (llm (calls ?w2) ?r2))]\<rparr>)"
        unfolding m1 generate_call_plan_fail[of llm ?w2 intent, OF n] by simp
      then have "r = Inl (ValueError (py ''Failed to parse JSON response in generate_call_plan'') ?t2)
            \<and> calls w' = calls w @ [?r1, ?r2]"
        using run unfolding c2 by auto
      then show ?thesis using s1 None by (simp add: Let_def)
    next
      case (Some plan)
      note s2 = Some
      then have p: "json_loads (clean_json_output (llm (calls ?w2) ?r2)) = Some plan" unfolding c2 .
      let ?w3 = "?w2\<lparr>calls := calls ?w2 @ [?r2]\<rparr>"
      let ?w4 = "print (PrintJson plan) (print (PrintText (10 # py ''[Initial Call Plan]'')) ?w3)"
      have c4: "calls ?w4 = calls w @ [?r1, ?r2]" by (simp add: calls_print)
      have m2: "planner_main llm w =
         (case refine_loop llm intent [0, 1, 2] plan ?w4 of
                      (Inl e, w) \<Rightarrow> (Inl e, w)
                    | (Inr refined_plan, w) \<Rightarrow>
                        let w = print (PrintText (10 # py ''[Refined Call Plan]'')) w;
                            w = print (PrintJson refined_plan) w;
                            (final_system_prompt, w) =
                               create_cot_system_prompt_from_plan llm refined_plan intent w;
                            w = print (PrintText (10 # py ''[Final System Prompt]'')) w;
                            w = print (PrintText final_system_prompt) w
                        in (Inr (), w))"
        unfolding m1 generate_call_plan_ok[of llm ?w2 intent, OF p]
        by (simp add: Let_def iterative_refinement_def py_range_def upt_rec numeral_eq_Suc)
      have fail: "\<And>x. fst (refine_loop llm intent [0, 1, 2] plan ?w4) = Inl x \<Longrightarrow>
          r = Inl x \<and> w' = snd (refine_loop llm intent [0, 1, 2] plan ?w4)"
        using run unfolding m2 by (cases "refine_loop llm intent [0, 1, 2] plan ?w4") auto
      let ?r3 = "RefinePrompt plan intent"
      let ?t3 = "clean_json_output (llm (calls w @ [?r1, ?r2]) ?r3)"
      show ?thesis
      proof (cases "json_loads ?t3")
        case None
        then have n: "json_loads (clean_json_output (llm (calls ?w4) ?r3)) = None" unfolding c4 .
        have "r = Inl (ValueError
              (py ''Failed to parse JSON response in iterative_refinement, iteration 1'') ?t3)
            \<and> calls w' = calls w @ [?r1, ?r2, ?r3]"
        proof -
          have f: "fst (refine_loop llm intent [0, 1, 2] plan ?w4) = Inl (ValueError
              (py ''Failed to parse JSON response in iterative_refinement, iteration '' @ str_nat (0 + 1))
              (clean_json_output (llm (calls ?w4) ?r3)))"
            using n by (rule refine_loop_fail_fst(1)[of llm ?w4 plan intent 0 "[1, 2]"])
          have g: "calls (snd (refine_loop llm intent [0, 1, 2] plan ?w4)) = calls ?w4 @ [?r3]"
            using n by (rule refine_loop_fail_fst(2)[of llm ?w4 plan intent 0 "[1, 2]"])
          from fail[OF f] g show ?thesis unfolding iteration_message c4 by simp
        qed
        then show ?thesis using s1 s2 None by (simp add: Let_def)
      next
        case (Some plan1)
        note s3 = Some
        then have p3: "json_loads (clean_json_output (llm (calls ?w4) ?r3)) = Some plan1" unfolding c4 .
        let ?w5 = "?w4\<lparr>calls := calls ?w4 @ [?r3]\<rparr>"
        have c5: "calls ?w5 = calls w @ [?r1, ?r2, ?r3]" by (simp add: calls_print)
        have l1: "refine_loop llm intent [0, 1, 2] plan ?w4 = refine_loop llm intent [1, 2] plan1 ?w5"
          using p3 by (rule refine_loop_ok[of llm ?w4 plan intent plan1 0 "[1, 2]"])
        let ?r4 = "RefinePrompt plan1 intent"
        let ?t4 = "clean_json_output (llm (calls w @ [?r1, ?r2, ?r3]) ?r4)"
        show ?thesis
        proof (cases "json_loads ?t4")
          case None
          then have n: "json_loads (clean_json_output (llm (calls ?w5) ?r4)) = None" unfolding c5 .
          have "r = Inl (ValueError
                (py ''Failed to parse JSON response in iterative_refinement, iteration 2'') ?t4)
              \<and> calls w' = calls w @ [?r1, ?r2, ?r3, ?r4]"
          proof -
            have f: "fst (refine_loop llm intent [1, 2] plan1 ?w5) = Inl (ValueError
                (py ''Failed to parse JSON response in iterative_refinement, iteration '' @ str_nat (1 + 1))
                (clean_json_output (llm (calls ?w5) ?r4)))"
              using n by (rule refine_loop_fail_fst(1)[of llm ?w5 plan1 intent 1 "[2]"])
            have g: "calls (snd (refine_loop llm intent [1, 2] plan1 ?w5)) = calls ?w5 @ [?r4]"
              using n by (rule refine_loop_fail_fst(2)[of llm ?w5 plan1 intent 1 "[2]"])
            from fail[unfolded l1, OF f] g show ?thesis unfolding iteration_message c5 by simp
          qed
          then show ?thesis using s1 s2 s3 None by (simp add: Let_def)
        next
          case (Some plan2)
          note s4 = Some
          then have p4: "json_loads (clean_json_output (llm (calls ?w5) ?r4)) = Some plan2" unfolding c5 .
          let ?w6 = "?w5\<lparr>calls := calls ?w5 @ [?r4]\<rparr>"
          have c6: "calls ?w6 = calls w @ [?r1, ?r2, ?r3, ?r4]" by (simp add: calls_print)
          have l2: "refine_loop llm intent [1, 2] plan1 ?w5 = refine_loop llm intent [2] plan2 ?w6"
            using p4 by (rule refine_loop_ok[of llm ?w5 plan1 intent plan2 1 "[2]"])
          let ?r5 = "RefinePrompt plan2 intent"
          let ?t5 = "clean_json_output (llm (calls w @ [?r1, ?r2, ?r3, ?r4]) ?r5)"
          show ?thesis
          proof (cases "json_loads ?t5")
            case None
            then have n: "json_loads (clean_json_output (llm (calls ?w6) ?r5)) = None" unfolding c6 .
            have "r = Inl (ValueError
                  (py ''Failed to parse JSON response in iterative_refinement, iteration 3'') ?t5)
                \<and> calls w' = calls w @ [?r1, ?r2, ?r3, ?r4, ?r5]"
            proof -
              have f: "fst (refine_loop llm intent [2] plan2 ?w6) = Inl (ValueError
                  (py ''Failed to parse JSON response in iterative_refinement, iteration '' @ str_nat (2 + 1))
                  (clean_json_output (llm (calls ?w6) ?r5)))"
                using n by (rule refine_loop_fail_fst(1)[of llm ?w6 plan2 intent 2 "[]"])
              have g: "calls (snd (refine_loop llm intent [2] plan2 ?w6)) = calls ?w6 @ [?r5]"
                using n by (rule refine_loop_fail_fst(2)[of llm ?w6 plan2 intent 2 "[]"])
              from fail[unfolded l1 l2, OF f] g show ?thesis unfolding iteration_message c6 by simp
            qed
            then show ?thesis using s1 s2 s3 s4 None by (simp add: Let_def)
          next
            case (Some plan3)
            then have p5: "json_loads (clean_json_output (llm (calls ?w6) ?r5)) = Some plan3" unfolding c6 .
            let ?w7 = "?w6\<lparr>calls := calls ?w6 @ [?r5]\<rparr>"
            have c7: "calls ?w7 = calls w @ [?r1, ?r2, ?r3, ?r4, ?r5]" by (simp add: calls_print)
            have l3: "refine_loop llm intent [2] plan2 ?w6 = (Inr plan3, ?w7)"
              using p5 refine_loop_ok[of llm ?w6 plan2 intent plan3 2 "[]"]
              by (simp only: refine_loop.simps(1))
            have "planner_main llm w = (Inr (),
                print (PrintText (clean_json_output (llm (calls ?w7) (SystemPrompt plan3 intent))))
                 (print (PrintText (10 # py ''[Final System Prompt]''))
                   ((print (PrintJson plan3) (print (PrintText (10 # py ''[Refined Call Plan]'')) ?w7))
                      \<lparr>calls := calls ?w7 @ [SystemPrompt plan3 intent]\<rparr>)))"
              unfolding m2 l1 l2 l3
              by (simp add: Let_def create_cot_system_prompt_from_plan_def chain_run_def calls_print)
            then have "r = Inr () \<and> calls w' = calls w @ [?r1, ?r2, ?r3, ?r4, ?r5, SystemPrompt plan3 intent]"
              using run by (auto simp: calls_print)
            then show ?thesis using s1 s2 s3 s4 Some by (simp add: Let_def)
          qed
        qed
      qed
    qed
  qed
qed


text \<open>
  Claim C5. A decode failure at any stage aborts the run of the planning pipeline at once.
  The outcome of a run is decided by the first response that does not decode: the run then
  returns the \<open>ValueError\<close> of that stage (and no value), and the request that got this
  response is the last one issued, so no later stage is called and no stage is called
  again; the run completes, with the one request of the synthesis stage, only when the
  five responses before it all decode. Seen from a failed run: its last request is the
  one whose response did not decode, every request before it decoded, and the requests
  follow the order of the pipeline.
\<close>

theorem planner_main_aborts:
  assumes "planner_main llm w = (r, w')"
  shows "(\<forall>e. r = Inl e \<longrightarrow>
           (\<exists>prior req. calls w' = calls w @ prior @ [req]
             \<and> (\<forall>k<length prior. decodes llm (calls w @ take k prior) (prior ! k))
             \<and> \<not> decodes llm (calls w @ prior) req
             \<and> (\<exists>msg. e = ValueError msg (clean_json_output (llm (calls w @ prior) req)))
             \<and> map stage_of (prior @ [req]) = take (length prior + 1) pipeline
             \<and> length prior < 5))
    \<and> (let r1 = IntentPrompt user_input_example;
            t1 = clean_json_output (llm (calls w) r1)
        in case json_loads t1 of
             None \<Rightarrow>
               r = Inl (ValueError (py ''Failed to parse JSON response in generate_intent'') t1)
               \<and> calls w' = calls w @ [r1]
           | Some intent \<Rightarrow>
               let r2 = PlanningPrompt intent;
                   t2 = clean_json_output (llm (calls w @ [r1]) r2)
               in case json_loads t2 of
                    None \<Rightarrow>
                      r = Inl (ValueError (py ''Failed to parse JSON response in generate_call_plan'') t2)
                      \<and> calls w' = calls w @ [r1, r2]
                  | Some plan \<Rightarrow>
                      let r3 = RefinePrompt plan intent;
                          t3 = clean_json_output (llm (calls w @ [r1, r2]) r3)
                      in case json_loads t3 of
                           None \<Rightarrow>
                             r = Inl (ValueError
                                   (py ''Failed to parse JSON response in iterative_refinement, iteration 1'') t3)
                             \<and> calls w' = calls w @ [r1, r2, r3]
                         | Some plan1 \<Rightarrow>
                             let r4 = RefinePrompt plan1 intent;
                                 t4 = clean_json_output (llm (calls w @ [r1, r2, r3]) r4)
                             in case json_loads t4 of
                                  None \<Rightarrow>
                                    r = Inl (ValueError
                                          (py ''Failed to parse JSON response in iterative_refinement, iteration 2'') t4)
                                    \<and> calls w' = calls w @ [r1, r2, r3, r4]
                                | Some plan2 \<Rightarrow>
                                    let r5 = RefinePrompt plan2 intent;
                                        t5 = clean_json_output (llm (calls w @ [r1, r2, r3, r4]) r5)
                                    in case json_loads t5 of
                                         None \<Rightarrow>
                                           r = Inl (ValueError
                                                 (py ''Failed to parse JSON response in iterative_refinement, iteration 3'') t5)
                                           \<and> calls w' = calls w @ [r1, r2, r3, r4, r5]
                                       | Some plan3 \<Rightarrow>
                                           r = Inr ()
                                           \<and> calls w' = calls w @ [r1, r2, r3, r4, r5, SystemPrompt plan3 intent])"
proof (intro conjI allI impI)
  fix e assume "r = Inl e"
  then have "planner_main llm w = (Inl e, w')" using assms by simp
  then show "\<exists>prior req. calls w' = calls w @ prior @ [req]
             \<and> (\<forall>k<length prior. decodes llm (calls w @ take k prior) (prior ! k))
             \<and> \<not> decodes llm (calls w @ prior) req
             \<and> (\<exists>msg. e = ValueError msg (clean_json_output (llm (calls w @ prior) req)))
             \<and> map stage_of (prior @ [req]) = take (length prior + 1) pipeline
             \<and> length prior < 5"
    by (rule planner_main_raises)
next
  show "let r1 = IntentPrompt user_input_example;
            t1 = clean_json_output (llm (calls w) r1)
        in case json_loads t1 of
             None \<Rightarrow>
               r = Inl (ValueError (py ''Failed to parse JSON response in generate_intent'') t1)
               \<and> calls w' = calls w @ [r1]
           | Some intent \<Rightarrow>
               let r2 = PlanningPrompt intent;
                   t2 = clean_json_output (llm (calls w @ [r1]) r2)
               in case json_loads t2 of
                    None \<Rightarrow>
                      r = Inl (ValueError (py ''Failed to parse JSON response in generate_call_plan'') t2)
                      \<and> calls w' = calls w @ [r1, r2]
                  | Some plan \<Rightarrow>
                      let r3 = RefinePrompt plan intent;
                          t3 = clean_json_output (llm (calls w @ [r1, r2]) r3)
                      in case json_loads t3 of
                           None \<Rightarrow>
                             r = Inl (ValueError
                                   (py ''Failed to parse JSON response in iterative_refinement, iteration 1'') t3)
                             \<and> calls w' = calls w @ [r1, r2, r3]
                         | Some plan1 \<Rightarrow>
                             let r4 = RefinePrompt plan1 intent;
                                 t4 = clean_json_output (llm (calls w @ [r1, r2, r3]) r4)
                             in case json_loads t4 of
                                  None \<Rightarrow>
                                    r = Inl (ValueError
                                          (py ''Failed to parse JSON response in iterative_refinement, iteration 2'') t4)
                                    \<and> calls w' = calls w @ [r1, r2, r3, r4]
                                | Some plan2 \<Rightarrow>
                                    let r5 = RefinePrompt plan2 intent;
                                        t5 = clean_json_output (llm (calls w @ [r1, r2, r3, r4]) r5)
                                    in case json_loads t5 of
                                         None \<Rightarrow>
                                           r = Inl (ValueError
                                                 (py ''Failed to parse JSON response in iterative_refinement, iteration 3'') t5)
                                           \<and> calls w' = calls w @ [r1, r2, r3, r4, r5]
                                       | Some plan3 \<Rightarrow>
                                           r = Inr ()
                                           \<and> calls w' = calls w @ [r1, r2, r3, r4, r5, SystemPrompt plan3 intent]"
    using assms by (rule planner_main_run)
qed

text \<open>
  A run against a service whose fourth answer (to the second refinement) is malformed.
\<close>

lemma failing_third_run:
  "planner_main failing_third_stub empty_world =
     (Inl (ValueError
        (py ''Failed to parse JSON response in iterative_refinement, iteration 2'')
        (py ''{\"scenarios\": [}'')),
      \<lparr>calls = [IntentPrompt user_input_example, PlanningPrompt plan_example,
                 RefinePrompt plan_example plan_example, RefinePrompt plan_example plan_example],
       stdout = [PrintText (10 # py ''[Generated Intent]''), PrintJson plan_example,
                 PrintText (10 # py ''[Initial Call Plan]''), PrintJson plan_example,
                 PrintText (py ''Failed to parse JSON response in iterative_refinement, iteration 2 : {\"scenarios\": [}'')]\<rparr>)"
  by code_simp

theorem planner_main_aborts_witness:
  "planner_main failing_third_stub empty_world =
     (Inl (ValueError
        (py ''Failed to parse JSON response in iterative_refinement, iteration 2'')
        (py ''{\"scenarios\": [}'')),
      \<lparr>calls = [IntentPrompt user_input_example, PlanningPrompt plan_example,
                 RefinePrompt plan_example plan_example, RefinePrompt plan_example plan_example],
       stdout = [PrintText (10 # py ''[Generated Intent]''), PrintJson plan_example,
                 PrintText (10 # py ''[Initial Call Plan]''), PrintJson plan_example,
                 PrintText (py ''Failed to parse JSON response in iterative_refinement, iteration 2 : {\"scenarios\": [}'')]\<rparr>)
   \<and> (\<exists>prior req.
          [IntentPrompt user_input_example, PlanningPrompt plan_example,
           RefinePrompt plan_example plan_example, RefinePrompt plan_example plan_example]
            = calls empty_world @ prior @ [req]
        \<and> \<not> decodes failing_third_stub (calls empty_world @ prior) req
        \<and> map stage_of (prior @ [req]) = take (length prior + 1) pipeline)"
proof -
  from planner_main_aborts[OF failing_third_run] obtain prior req where
    "[IntentPrompt user_input_example, PlanningPrompt plan_example,
      RefinePrompt plan_example plan_example, RefinePrompt plan_example plan_example]
        = calls empty_world @ prior @ [req]"
    "\<not> decodes failing_third_stub (calls empty_world @ prior) req"
    "map stage_of (prior @ [req]) = take (length prior + 1) pipeline"
    by auto
  then show ?thesis using failing_third_run by blast
qed


section \<open>Whitespace around a JSON text\<close>

text \<open>
  \<open>json.loads\<close> skips the whitespace before and after the value, so the decoded value
  does not change when \<open>strip()\<close> removes it. The lemmas follow the scanner.
\<close>

lemma json_ws_isspace: "json_ws c \<Longrightarrow> isspace c"
  unfolding json_ws_def isspace_def by auto

lemma ishex_ws: "json_ws c \<Longrightarrow> \<not> ishex c"
  unfolding json_ws_def ishex_def by auto

lemma backslash_ws: "json_ws c \<Longrightarrow> backslash c = None"
  unfolding json_ws_def backslash_def by auto

lemma decode_uXXXX_Some: "decode_uXXXX s = Some u \<Longrightarrow> 4 \<le> length s"
  unfolding decode_uXXXX_def by (simp split: if_splits)

lemma decode_uXXXX_ws:
  assumes "list_all json_ws w"
  shows "decode_uXXXX (s @ w) = decode_uXXXX s"
proof (cases "4 \<le> length s")
  case True
  then show ?thesis unfolding decode_uXXXX_def by simp
next
  case False
  then have n: "decode_uXXXX s = None" unfolding decode_uXXXX_def by simp
  have "\<not> (4 \<le> length (s @ w) \<and> list_all ishex (take 4 (s @ w)))"
  proof
    assume a: "4 \<le> length (s @ w) \<and> list_all ishex (take 4 (s @ w))"
    then obtain x w' where x: "w = x # w'" using False by (cases w) auto
    have "take 4 (s @ w) = s @ x # take (3 - length s) w'"
      using False unfolding x by (simp add: take_Cons' not_le)
    then have "ishex x" using a by simp
    moreover have "json_ws x" using assms x by simp
    ultimately show False using ishex_ws by blast
  qed
  then have "decode_uXXXX (s @ w) = None" unfolding decode_uXXXX_def by (simp only: if_False)
  then show ?thesis using n by simp
qed

lemma take2_ws:
  assumes "list_all json_ws w"
  shows "take 2 (s @ w) = [92, 117] \<longleftrightarrow> take 2 s = [92, 117]"
proof (cases "2 \<le> length s")
  case True then show ?thesis by simp
next
  case False
  then consider "s = []" | x where "s = [x]" by (cases s; cases "tl s") auto
  then show ?thesis
  proof cases
    case 1
    have "take 2 w \<noteq> [92, 117]"
    proof
      assume "take 2 w = [92, 117]"
      then obtain r where "w = 92 # r" by (cases w) auto
      then show False using assms by (simp add: json_ws_def)
    qed
    then show ?thesis using 1 by simp
  next
    case 2
    have "take 1 w \<noteq> [117]"
    proof
      assume "take 1 w = [117]"
      then obtain r where "w = 117 # r" by (cases w) auto
      then show False using assms by (simp add: json_ws_def)
    qed
    then show ?thesis using 2 by simp
  qed
qed

lemma unicode_escape_ws:
  assumes w: "list_all json_ws w"
  shows "unicode_escape (s @ w) = map_option (\<lambda>(ch, rest). (ch, rest @ w)) (unicode_escape s)"
proof (cases "decode_uXXXX s")
  case None
  then show ?thesis unfolding unicode_escape_def decode_uXXXX_ws[OF w] by simp
next
  case (Some uni)
  then have d4: "drop 4 (s @ w) = drop 4 s @ w" using decode_uXXXX_Some by simp
  have t2: "(take 2 (drop 4 s @ w) = [92, 117]) = (take 2 (drop 4 s) = [92, 117])"
    by (rule take2_ws[OF w])
  show ?thesis
  proof (cases "55296 \<le> uni \<and> uni \<le> 56319 \<and> take 2 (drop 4 s) = [92, 117]")
    case False
    have "unicode_escape s = Some (uni, drop 4 s)"
      unfolding unicode_escape_def Some by (simp only: False if_False option.case)
    moreover have "unicode_escape (s @ w) = Some (uni, drop 4 s @ w)"
      unfolding unicode_escape_def decode_uXXXX_ws[OF w] Some d4 t2
      by (simp only: False if_False option.case)
    ultimately show ?thesis by simp
  next
    case sur: True
    then have "length (take 2 (drop 4 s)) = 2" by simp
    then have d6: "drop 6 (s @ w) = drop 6 s @ w" by simp
    have du2: "decode_uXXXX (drop 6 (s @ w)) = decode_uXXXX (drop 6 s)"
      unfolding d6 by (rule decode_uXXXX_ws[OF w])
    have a: "unicode_escape s =
        (case decode_uXXXX (drop 6 s) of
               None \<Rightarrow> None
             | Some uni2 \<Rightarrow>
                 if 56320 \<le> uni2 \<and> uni2 \<le> 57343
                 then Some (65536 + ((uni - 55296) * 1024 + (uni2 - 56320)), drop 10 s)
                 else Some (uni, drop 4 s))"
      unfolding unicode_escape_def Some using sur by simp
    have b: "unicode_escape (s @ w) =
        (case decode_uXXXX (drop 6 s) of
               None \<Rightarrow> None
             | Some uni2 \<Rightarrow>
                 if 56320 \<le> uni2 \<and> uni2 \<le> 57343
                 then Some (65536 + ((uni - 55296) * 1024 + (uni2 - 56320)), drop 10 (s @ w))
                 else Some (uni, drop 4 s @ w))"
      unfolding unicode_escape_def decode_uXXXX_ws[OF w] Some du2 d4 t2
      using sur by simp
    show ?thesis
    proof (cases "decode_uXXXX (drop 6 s)")
      case None
      then show ?thesis unfolding a b by simp
    next
      case uni2: (Some uni2)
      then have "4 \<le> length (drop 6 s)" by (rule decode_uXXXX_Some)
      then have d10: "drop 10 (s @ w) = drop 10 s @ w" by simp
      show ?thesis unfolding a b uni2 d10 by simp
    qed
  qed
qed

lemma escape_ws:
  assumes w: "list_all json_ws w"
  shows "escape (s @ w) = map_option (\<lambda>(ch, rest). (ch, rest @ w)) (escape s)"
proof (cases s)
  case Nil
  have "escape w = None"
  proof (cases w)
    case Nil then show ?thesis by simp
  next
    case (Cons x w')
    then have x: "json_ws x" using w by simp
    then have "x \<noteq> 117" unfolding json_ws_def by auto
    moreover have "backslash x = None" using x by (rule backslash_ws)
    ultimately show ?thesis using Cons by simp
  qed
  then show ?thesis using Nil by simp
next
  case (Cons esc cs)
  show ?thesis
  proof (cases "esc = 117")
    case True
    then show ?thesis unfolding Cons using unicode_escape_ws[OF w, of cs] by simp
  next
    case False
    then show ?thesis unfolding Cons by (cases "backslash esc") simp_all
  qed
qed

lemma scanstring_all_ws: "list_all json_ws w \<Longrightarrow> scanstring w = None"
proof (induction w)
  case Nil then show ?case by simp
next
  case (Cons c w)
  then have ih: "scanstring w = None" by simp
  have "json_ws c" using Cons.prems by simp
  then consider "c = 32" | "c < 32" "c \<noteq> 92" "c \<noteq> 34" unfolding json_ws_def by auto
  then show ?case
  proof cases
    case 1 then show ?thesis using ih by (simp add: prepend_def)
  next
    case 2 then show ?thesis by simp
  qed
qed

lemma prepend_map:
  "prepend ch (map_option (\<lambda>(str, rest). (str, rest @ w)) r)
     = map_option (\<lambda>(str, rest). (str, rest @ w)) (prepend ch r)"
  unfolding prepend_def by (cases r) auto

lemma scanstring_ws:
  assumes w: "list_all json_ws w"
  shows "scanstring (cs @ w) = map_option (\<lambda>(str, rest). (str, rest @ w)) (scanstring cs)"
proof (induction cs rule: scanstring.induct)
  case 1
  then show ?case using scanstring_all_ws[OF w] by simp
next
  case (2 c cs)
  show ?case
  proof (cases "c = 34")
    case True
    then show ?thesis by simp
  next
    case c34: False
    show ?thesis
    proof (cases "c = 92")
      case False
      show ?thesis
      proof (cases "c < 32")
        case True
        then show ?thesis using c34 False by simp
      next
        case nc: False
        have "scanstring (cs @ w) = map_option (\<lambda>(str, rest). (str, rest @ w)) (scanstring cs)"
          using "2.IH"(2) c34 False nc by blast
        then show ?thesis using c34 False nc by (simp add: prepend_map)
      qed
    next
      case True
      show ?thesis
      proof (cases "escape cs")
        case None
        then show ?thesis using c34 True escape_ws[OF w, of cs] by simp
      next
        case (Some a)
        then obtain ch rest where e: "escape cs = Some (ch, rest)" by (cases a) auto
        then have e': "escape (cs @ w) = Some (ch, rest @ w)" using escape_ws[OF w, of cs] by simp
        have "scanstring (rest @ w) = map_option (\<lambda>(str, rest). (str, rest @ w)) (scanstring rest)"
          using "2.IH"(1) c34 True e by blast
        then show ?thesis using c34 True e e' by (simp add: prepend_map)
      qed
    qed
  qed
qed



lemma startswith_ws:
  assumes w: "list_all json_ws w" and p: "\<forall>c\<in>set p. \<not> json_ws c"
  shows "startswith (s @ w) p \<longleftrightarrow> startswith s p"
proof (cases "length p \<le> length s")
  case True
  then show ?thesis unfolding startswith_def by simp
next
  case False
  then have n: "\<not> startswith s p" using startswith_length by blast
  have "\<not> startswith (s @ w) p"
  proof
    assume "startswith (s @ w) p"
    then obtain r where r: "s @ w = p @ r" unfolding startswith_iff by blast
    have "length s < length p" using False by simp
    then obtain q where q: "p = s @ q" "q \<noteq> []"
      using r by (metis append_eq_append_conv2 append_Nil2 length_append less_irrefl_nat not_add_less1)
    then have "w = q @ r" using r by simp
    then have "hd q \<in> set w" "hd q \<in> set p" using q by (cases q; simp)+
    then show False using w p by (auto simp: list_all_iff)
  qed
  then show ?thesis using n by simp
qed

lemma drop_startswith: "startswith s p \<Longrightarrow> drop (length p) (s @ w) = drop (length p) s @ w"
  using startswith_length[of s p] by simp

lemma isdigit_ws: "json_ws c \<Longrightarrow> \<not> isdigit c"
  unfolding json_ws_def isdigit_def by auto

lemma takeWhile_isdigit_ws:
  "list_all json_ws w \<Longrightarrow> takeWhile isdigit (s @ w) = takeWhile isdigit s"
proof (induction s)
  case Nil
  then show ?case by (cases w) (auto simp: isdigit_ws)
next
  case (Cons a s)
  then show ?case by simp
qed

lemma number_sign_ws: "list_all json_ws w \<Longrightarrow> number_sign (s @ w) = number_sign s"
  unfolding number_sign_def by (cases s; cases w) (auto simp: json_ws_def)

lemma number_integer_ws: "list_all json_ws w \<Longrightarrow> number_integer (s @ w) = number_integer s"
proof (cases s)
  case Nil
  assume "list_all json_ws w"
  then show ?thesis using Nil unfolding number_integer_def
    by (cases w) (auto simp: json_ws_def isdigit_def)
next
  case (Cons d ds)
  assume "list_all json_ws w"
  then show ?thesis using Cons unfolding number_integer_def
    by (simp add: takeWhile_isdigit_ws)
qed

lemma number_frac_ws: "list_all json_ws w \<Longrightarrow> number_frac (s @ w) = number_frac s"
proof -
  assume w: "list_all json_ws w"
  consider "s = []" | p where "s = [p]" | p d ds where "s = p # d # ds"
    by (cases s; cases "tl s") auto
  then show ?thesis
  proof cases
    case 1
    show ?thesis
    proof (cases w)
      case Nil then show ?thesis using 1 by simp
    next
      case (Cons x w')
      then have "x \<noteq> 46" using w by (auto simp: json_ws_def)
      then show ?thesis using 1 Cons unfolding number_frac_def by (cases w') auto
    qed
  next
    case 2
    show ?thesis
    proof (cases w)
      case Nil then show ?thesis using 2 by simp
    next
      case (Cons x w')
      then have "\<not> isdigit x" using w by (simp add: isdigit_ws)
      then show ?thesis using 2 Cons unfolding number_frac_def by simp
    qed
  next
    case 3
    then show ?thesis unfolding number_frac_def using takeWhile_isdigit_ws[OF w] by simp
  qed
qed

lemma take1_ws:
  assumes "list_all json_ws w" and "\<not> json_ws x"
  shows "take 1 (r @ w) = [x] \<longleftrightarrow> take 1 r = [x]"
proof (cases r)
  case Nil
  have "take 1 w \<noteq> [x]"
  proof
    assume "take 1 w = [x]"
    then obtain w' where "w = x # w'" by (cases w) auto
    then show False using assms by simp
  qed
  then show ?thesis using Nil by simp
next
  case (Cons a r')
  then show ?thesis by simp
qed

lemma exp_sign_take: "take (length (exp_sign r)) r = exp_sign r"
  unfolding exp_sign_def by (cases r) auto

lemma exp_sign_ws: "list_all json_ws w \<Longrightarrow> exp_sign (r @ w) = exp_sign r"
  unfolding exp_sign_def
  using take1_ws[of w 43 r] take1_ws[of w 45 r]
  by (cases r) (auto simp: json_ws_def)

lemma number_exp_alt:
  "number_exp s =
     (case s of
        [] \<Rightarrow> []
      | e # r \<Rightarrow>
          if e = 101 \<or> e = 69 then
            (if takeWhile isdigit (drop (length (exp_sign r)) r) = [] then []
             else e # exp_sign r @ takeWhile isdigit (drop (length (exp_sign r)) r))
          else [])"
  unfolding number_exp_def exp_sign_def Let_def by (rule refl)

lemma take_takeWhile: "take (length (takeWhile P xs)) xs = takeWhile P xs"
  by (metis takeWhile_eq_take)

lemma number_exp_take: "take (length (number_exp s)) s = number_exp s"
proof (cases s)
  case Nil
  then show ?thesis unfolding number_exp_alt by simp
next
  case (Cons e r)
  define sg where "sg = exp_sign r"
  define ds where "ds = takeWhile isdigit (drop (length sg) r)"
  have "take (length sg + length ds) r = take (length sg) r @ take (length ds) (drop (length sg) r)"
    by (rule take_add)
  also have "\<dots> = sg @ ds"
    unfolding sg_def ds_def exp_sign_take take_takeWhile ..
  finally have "take (length (e # sg @ ds)) (e # r) = e # sg @ ds" by simp
  then show ?thesis
    unfolding Cons number_exp_alt list.case sg_def[symmetric] ds_def[symmetric]
    by (simp del: take_append length_append)
qed

lemma length_take_eq: "take n s = x \<Longrightarrow> length x \<le> length s"
  by auto

lemma number_exp_ws: "list_all json_ws w \<Longrightarrow> number_exp (s @ w) = number_exp s"
proof -
  assume w: "list_all json_ws w"
  show ?thesis
  proof (cases s)
    case Nil
    show ?thesis
    proof (cases w)
      case Nil then show ?thesis using \<open>s = []\<close> by simp
    next
      case (Cons x w')
      then have "x \<noteq> 101" "x \<noteq> 69" using w by (auto simp: json_ws_def)
      then show ?thesis using \<open>s = []\<close> Cons unfolding number_exp_alt by simp
    qed
  next
    case (Cons e r)
    have l: "length (exp_sign r) \<le> length r"
      using exp_sign_take by (rule length_take_eq)
    have d: "drop (length (exp_sign r)) (r @ w) = drop (length (exp_sign r)) r @ w"
      using l by simp
    have "takeWhile isdigit (drop (length (exp_sign r)) (r @ w))
        = takeWhile isdigit (drop (length (exp_sign r)) r)"
      unfolding d by (rule takeWhile_isdigit_ws[OF w])
    then show ?thesis
      unfolding Cons number_exp_alt by (simp add: exp_sign_ws[OF w])
  qed
qed

lemma match_exp_ws:
  "list_all json_ws w \<Longrightarrow>
   match_exp sign integer frac (s @ w)
     = (fst (match_exp sign integer frac s), snd (match_exp sign integer frac s) @ w)"
proof -
  assume w: "list_all json_ws w"
  have "length (number_exp s) \<le> length s"
    using number_exp_take by (rule length_take_eq)
  then show ?thesis
    unfolding match_exp_def Let_def number_exp_ws[OF w] by simp
qed

lemma number_frac_take: "take (length (number_frac s)) s = number_frac s"
proof -
  consider "s = []" | p where "s = [p]" | p d ds where "s = p # d # ds"
    by (cases s; cases "tl s") auto
  then show ?thesis
  proof cases
    case 3
    then show ?thesis unfolding number_frac_def by (simp add: take_takeWhile)
  qed (simp_all add: number_frac_def)
qed

lemma number_integer_take: "take (length (number_integer s)) s = number_integer s"
  unfolding number_integer_def by (cases s) (simp_all add: take_takeWhile)

lemma number_sign_take: "take (length (number_sign s)) s = number_sign s"
  unfolding number_sign_def by (cases s) auto

lemma match_frac_ws:
  "list_all json_ws w \<Longrightarrow>
   match_frac sign integer (s @ w)
     = (fst (match_frac sign integer s), snd (match_frac sign integer s) @ w)"
proof -
  assume w: "list_all json_ws w"
  have "length (number_frac s) \<le> length s"
    using number_frac_take by (rule length_take_eq)
  then have d: "drop (length (number_frac s)) (s @ w) = drop (length (number_frac s)) s @ w"
    by simp
  show ?thesis
    unfolding match_frac_def Let_def number_frac_ws[OF w] d by (rule match_exp_ws[OF w])
qed

lemma match_integer_ws:
  "list_all json_ws w \<Longrightarrow>
   match_integer sign (s @ w) = map_option (\<lambda>(v, rest). (v, rest @ w)) (match_integer sign s)"
proof -
  assume w: "list_all json_ws w"
  have "length (number_integer s) \<le> length s"
    using number_integer_take by (rule length_take_eq)
  then have d: "drop (length (number_integer s)) (s @ w) = drop (length (number_integer s)) s @ w"
    by simp
  show ?thesis
    unfolding match_integer_def Let_def number_integer_ws[OF w] d match_frac_ws[OF w]
    by (simp add: case_prod_beta)
qed

lemma match_number_ws:
  "list_all json_ws w \<Longrightarrow>
   match_number (s @ w) = map_option (\<lambda>(v, rest). (v, rest @ w)) (match_number s)"
proof -
  assume w: "list_all json_ws w"
  have "length (number_sign s) \<le> length s"
    using number_sign_take by (rule length_take_eq)
  then have d: "drop (length (number_sign s)) (s @ w) = drop (length (number_sign s)) s @ w"
    by simp
  show ?thesis
    unfolding match_number_def Let_def number_sign_ws[OF w] d by (rule match_integer_ws[OF w])
qed

lemma no_ws_py:
  "\<forall>c\<in>set (py ''null''). \<not> json_ws c" "\<forall>c\<in>set (py ''true''). \<not> json_ws c"
  "\<forall>c\<in>set (py ''false''). \<not> json_ws c" "\<forall>c\<in>set (py ''NaN''). \<not> json_ws c"
  "\<forall>c\<in>set (py ''Infinity''). \<not> json_ws c" "\<forall>c\<in>set (py ''-Infinity''). \<not> json_ws c"
  by (simp_all add: py_def json_ws_def)

lemma length_py: "length (py p) = length p"
  by (simp add: py_def)

lemma scan_atom_ws:
  assumes w: "list_all json_ws w"
  shows "scan_atom (s @ w) = map_option (\<lambda>(v, rest). (v, rest @ w)) (scan_atom s)"
proof -
  have sw: "\<And>p. \<forall>c\<in>set (py p). \<not> json_ws c \<Longrightarrow> startswith (s @ w) (py p) = startswith s (py p)"
    using startswith_ws[OF w] by blast
  have dr: "\<And>p. startswith s (py p) \<Longrightarrow> length p \<le> length s"
  proof -
    fix p assume "startswith s (py p)"
    from startswith_length[OF this] show "length p \<le> length s" by (simp add: length_py)
  qed
  show ?thesis
  proof (cases "startswith s (py ''null'')")
    case True
    then show ?thesis unfolding scan_atom_def sw[OF no_ws_py(1)] using dr[OF True] by simp
  next
    case n1: False
    show ?thesis
    proof (cases "startswith s (py ''true'')")
      case True
      then show ?thesis unfolding scan_atom_def sw[OF no_ws_py(1)] sw[OF no_ws_py(2)]
        using n1 dr[OF True] by simp
    next
      case n2: False
      show ?thesis
      proof (cases "startswith s (py ''false'')")
        case True
        then show ?thesis
          unfolding scan_atom_def sw[OF no_ws_py(1)] sw[OF no_ws_py(2)] sw[OF no_ws_py(3)]
          using n1 n2 dr[OF True] by simp
      next
        case n3: False
        show ?thesis
        proof (cases "match_number s")
          case (Some r)
          then show ?thesis
            unfolding scan_atom_def sw[OF no_ws_py(1)] sw[OF no_ws_py(2)] sw[OF no_ws_py(3)]
              match_number_ws[OF w]
            using n1 n2 n3 by (cases r) simp
        next
          case None
          show ?thesis
          proof (cases "startswith s (py ''NaN'')")
            case True
            then show ?thesis
              unfolding scan_atom_def sw[OF no_ws_py(1)] sw[OF no_ws_py(2)] sw[OF no_ws_py(3)]
                sw[OF no_ws_py(4)] match_number_ws[OF w]
              using n1 n2 n3 None dr[OF True] by simp
          next
            case n4: False
            show ?thesis
            proof (cases "startswith s (py ''Infinity'')")
              case True
              then show ?thesis
                unfolding scan_atom_def sw[OF no_ws_py(1)] sw[OF no_ws_py(2)] sw[OF no_ws_py(3)]
                  sw[OF no_ws_py(4)] sw[OF no_ws_py(5)] match_number_ws[OF w]
                using n1 n2 n3 None n4 dr[OF True] by simp
            next
              case n5: False
              show ?thesis
              proof (cases "startswith s (py ''-Infinity'')")
                case True
                then show ?thesis
                  unfolding scan_atom_def sw[OF no_ws_py(1)] sw[OF no_ws_py(2)] sw[OF no_ws_py(3)]
                    sw[OF no_ws_py(4)] sw[OF no_ws_py(5)] sw[OF no_ws_py(6)] match_number_ws[OF w]
                  using n1 n2 n3 None n4 n5 dr[OF True] by simp
              next
                case n6: False
                then show ?thesis
                  unfolding scan_atom_def sw[OF no_ws_py(1)] sw[OF no_ws_py(2)] sw[OF no_ws_py(3)]
                    sw[OF no_ws_py(4)] sw[OF no_ws_py(5)] sw[OF no_ws_py(6)] match_number_ws[OF w]
                  using n1 n2 n3 None n4 n5 by simp
              qed
            qed
          qed
        qed
      qed
    qed
  qed
qed

lemma tokenize_ws_char: "json_ws c \<Longrightarrow> tokenize (c # cs) = tokenize cs"
  by (simp add: tokenize.simps)

lemma tokenize_ws_prefix: "list_all json_ws w \<Longrightarrow> tokenize (w @ s) = tokenize s"
  by (induction w) (simp_all add: tokenize_ws_char)

lemma tokenize_all_ws: "list_all json_ws w \<Longrightarrow> tokenize w = Some []"
  using tokenize_ws_prefix[of w "[]"] by (simp add: tokenize.simps)

lemma tokenize_punct:
  assumes "c = 123 \<or> c = 125 \<or> c = 91 \<or> c = 93 \<or> c = 58 \<or> c = 44"
  shows "\<exists>t. \<forall>cs. tokenize (c # cs) = push t (tokenize cs)"
proof -
  have "\<forall>cs. tokenize (c # cs) = push
      (if c = 123 then TLBrace else if c = 125 then TRBrace else if c = 91 then TLBracket
       else if c = 93 then TRBracket else if c = 58 then TColon else TComma) (tokenize cs)"
    using assms by (elim disjE) (simp_all add: tokenize.simps json_ws_def)
  then show ?thesis by blast
qed

lemma tokenize_string:
  "tokenize (34 # cs) =
     (case scanstring cs of None \<Rightarrow> None
      | Some (str, rest) \<Rightarrow> push (TString str) (tokenize rest))"
  by (simp add: tokenize.simps json_ws_def)

lemma tokenize_atom:
  assumes "\<not> json_ws c" "\<not> (c = 123 \<or> c = 125 \<or> c = 91 \<or> c = 93 \<or> c = 58 \<or> c = 44)" "c \<noteq> 34"
  shows "tokenize (c # cs) =
     (case scan_atom (c # cs) of None \<Rightarrow> None
      | Some (v, rest) \<Rightarrow> push (TAtom v) (tokenize rest))"
  using assms by (simp add: tokenize.simps)

lemma push_Some: "push t r = Some ts \<Longrightarrow> \<exists>ts'. r = Some ts'"
  unfolding push_def by (cases r) auto

lemma tokenize_ws_suffix:
  assumes w: "list_all json_ws w"
  shows "tokenize (s @ w) = tokenize s"
proof (induction s rule: length_induct)
  case (1 s)
  show ?case
  proof (cases s)
    case Nil
    then show ?thesis using tokenize_all_ws[OF w] by (simp add: tokenize.simps)
  next
    case (Cons c cs)
    have ih: "\<And>r. length r < length s \<Longrightarrow> tokenize (r @ w) = tokenize r" using 1 by blast
    show ?thesis
    proof (cases "json_ws c")
      case True
      then show ?thesis unfolding Cons using ih[of cs] Cons by (simp add: tokenize_ws_char)
    next
      case nws: False
      show ?thesis
      proof (cases "c = 123 \<or> c = 125 \<or> c = 91 \<or> c = 93 \<or> c = 58 \<or> c = 44")
        case True
        then obtain t where t: "\<And>cs. tokenize (c # cs) = push t (tokenize cs)"
          using tokenize_punct by blast
        show ?thesis unfolding Cons append_Cons t using ih[of cs] Cons by simp
      next
        case np: False
        show ?thesis
        proof (cases "c = 34")
          case True
          show ?thesis
          proof (cases "scanstring cs")
            case None
            then show ?thesis
              unfolding Cons True append_Cons tokenize_string scanstring_ws[OF w] by simp
          next
            case (Some a)
            then obtain str rest where e: "scanstring cs = Some (str, rest)" by (cases a) auto
            have "length rest < length s" using scanstring_length[OF e] Cons by simp
            then have "tokenize (rest @ w) = tokenize rest" by (rule ih)
            then show ?thesis
              unfolding Cons True append_Cons tokenize_string scanstring_ws[OF w] e by simp
          qed
        next
          case nq: False
          have a1: "tokenize (c # cs) =
             (case scan_atom (c # cs) of None \<Rightarrow> None
              | Some (v, rest) \<Rightarrow> push (TAtom v) (tokenize rest))"
            by (rule tokenize_atom[OF nws np nq])
          have sa: "scan_atom (c # cs @ w)
              = map_option (\<lambda>(v, rest). (v, rest @ w)) (scan_atom (c # cs))"
            using scan_atom_ws[OF w, of "c # cs"] by simp
          have a2: "tokenize (c # cs @ w) =
             (case map_option (\<lambda>(v, rest). (v, rest @ w)) (scan_atom (c # cs)) of None \<Rightarrow> None
              | Some (v, rest) \<Rightarrow> push (TAtom v) (tokenize rest))"
            using tokenize_atom[OF nws np nq, of "cs @ w"] unfolding sa .
          show ?thesis
          proof (cases "scan_atom (c # cs)")
            case None
            then show ?thesis unfolding Cons append_Cons a1 a2 by simp
          next
            case (Some a)
            then obtain v rest where e: "scan_atom (c # cs) = Some (v, rest)" by (cases a) auto
            have "length rest < length s" using scan_atom_length[OF e] Cons by simp
            then have "tokenize (rest @ w) = tokenize rest" by (rule ih)
            then show ?thesis unfolding Cons append_Cons a1 a2 e by simp
          qed
        qed
      qed
    qed
  qed
qed

lemma scan_atom_hd:
  assumes "scan_atom (c # cs) = Some r"
  shows "c = 110 \<or> c = 116 \<or> c = 102 \<or> c = 78 \<or> c = 73 \<or> c = 45 \<or> isdigit c"
proof (rule ccontr)
  assume n: "\<not> (c = 110 \<or> c = 116 \<or> c = 102 \<or> c = 78 \<or> c = 73 \<or> c = 45 \<or> isdigit c)"
  have "\<not> startswith (c # cs) (py ''null'')" "\<not> startswith (c # cs) (py ''true'')"
    "\<not> startswith (c # cs) (py ''false'')" "\<not> startswith (c # cs) (py ''NaN'')"
    "\<not> startswith (c # cs) (py ''Infinity'')" "\<not> startswith (c # cs) (py ''-Infinity'')"
    using n unfolding startswith_iff by (auto simp: py_def)
  moreover have "match_number (c # cs) = None"
    using n unfolding match_number_def number_sign_def match_integer_def number_integer_def
    by (auto simp: Let_def isdigit_def)
  ultimately show False using assms unfolding scan_atom_def by simp
qed

lemma tokenize_hd:
  assumes "tokenize (c # cs) = Some ts" and "\<not> json_ws c"
  shows "\<not> isspace c \<and> c \<noteq> 106 \<and> c \<noteq> 74"
proof -
  consider "c = 123 \<or> c = 125 \<or> c = 91 \<or> c = 93 \<or> c = 58 \<or> c = 44 \<or> c = 34"
    | r where "scan_atom (c # cs) = Some r"
    using assms by (auto simp: tokenize.simps split: if_splits option.splits)
  then show ?thesis
  proof cases
    case 1
    then show ?thesis unfolding isspace_def by auto
  next
    case 2
    from scan_atom_hd[OF this] show ?thesis unfolding isspace_def isdigit_def by auto
  qed
qed

lemma last_takeWhile: "takeWhile P xs \<noteq> [] \<Longrightarrow> P (last (takeWhile P xs))"
  by (meson last_in_set set_takeWhileD)

lemma last_digits: "isdigit d \<Longrightarrow> isdigit (last (d # takeWhile isdigit ds))"
  using last_takeWhile[of isdigit ds] by simp

lemma number_integer_last: "number_integer s \<noteq> [] \<Longrightarrow> isdigit (last (number_integer s))"
proof -
  assume a: "number_integer s \<noteq> []"
  then obtain d ds where s: "s = d # ds" unfolding number_integer_def by (cases s) auto
  show ?thesis
  proof (cases "d = 48")
    case True
    then show ?thesis unfolding s number_integer_def by (simp add: isdigit_def)
  next
    case False
    then have "isdigit d" using a unfolding s number_integer_def by (auto split: if_splits)
    then show ?thesis unfolding s number_integer_def using False last_digits[of d ds] by simp
  qed
qed

lemma number_frac_last: "number_frac s \<noteq> [] \<Longrightarrow> isdigit (last (number_frac s))"
proof -
  assume a: "number_frac s \<noteq> []"
  then obtain p d ds where s: "s = p # d # ds"
    unfolding number_frac_def by (cases s; cases "tl s") auto
  then have "p = 46 \<and> isdigit d" using a unfolding number_frac_def by (auto split: if_splits)
  then show ?thesis unfolding s number_frac_def using last_digits[of d ds] by simp
qed

lemma number_exp_last: "number_exp s \<noteq> [] \<Longrightarrow> isdigit (last (number_exp s))"
proof -
  assume a: "number_exp s \<noteq> []"
  then obtain e r where s: "s = e # r" unfolding number_exp_alt by (cases s) auto
  have ds: "takeWhile isdigit (drop (length (exp_sign r)) r) \<noteq> []"
    using a unfolding s number_exp_alt by (auto split: if_splits)
  then have "number_exp s = e # exp_sign r @ takeWhile isdigit (drop (length (exp_sign r)) r)"
    using a unfolding s number_exp_alt by (auto split: if_splits)
  then show ?thesis using ds last_takeWhile[OF ds] by simp
qed

lemma match_exp_snd: "snd (match_exp sign integer frac s) = drop (length (number_exp s)) s"
  unfolding match_exp_def Let_def by simp

lemma match_frac_snd:
  "snd (match_frac sign integer s)
     = drop (length (number_exp (drop (length (number_frac s)) s))) (drop (length (number_frac s)) s)"
  unfolding match_frac_def Let_def match_exp_snd ..

lemma take_drop_id': "take n s = x \<Longrightarrow> s = x @ drop n s"
  by (metis append_take_drop_id)

lemma match_number_split:
  assumes "match_number s = Some (v, rest)"
  shows "\<exists>pre. s = pre @ rest \<and> pre \<noteq> [] \<and> isdigit (last pre)"
proof -
  define sg where "sg = number_sign s"
  define s1 where "s1 = drop (length sg) s"
  define i where "i = number_integer s1"
  define s2 where "s2 = drop (length i) s1"
  define f where "f = number_frac s2"
  define s3 where "s3 = drop (length f) s2"
  define e where "e = number_exp s3"
  have m: "match_integer sg s1 = Some (v, rest)"
    using assms unfolding match_number_def Let_def sg_def s1_def .
  then have ne: "i \<noteq> []" and r: "(v, rest) = match_frac sg i s2"
    unfolding match_integer_def Let_def i_def s2_def by (auto split: if_splits)
  have rest: "rest = drop (length e) s3"
    using arg_cong[OF r, of snd] unfolding match_frac_snd e_def s3_def f_def by simp
  have "s = sg @ s1" unfolding s1_def sg_def by (rule take_drop_id'[OF number_sign_take])
  moreover have "s1 = i @ s2" unfolding s2_def i_def by (rule take_drop_id'[OF number_integer_take])
  moreover have "s2 = f @ s3" unfolding s3_def f_def by (rule take_drop_id'[OF number_frac_take])
  moreover have "s3 = e @ rest" unfolding rest e_def by (rule take_drop_id'[OF number_exp_take])
  ultimately have s: "s = (sg @ i @ f @ e) @ rest" by simp
  have li: "isdigit (last i)" using ne unfolding i_def by (rule number_integer_last)
  have lf: "f \<noteq> [] \<Longrightarrow> isdigit (last f)" unfolding f_def by (rule number_frac_last)
  have le: "e \<noteq> [] \<Longrightarrow> isdigit (last e)" unfolding e_def by (rule number_exp_last)
  have "isdigit (last (sg @ i @ f @ e))"
    using ne li lf le by (cases "e = []"; cases "f = []") simp_all
  moreover have "sg @ i @ f @ e \<noteq> []" using ne by simp
  ultimately show ?thesis using s by blast
qed

lemma scan_atom_split:
  assumes "scan_atom s = Some (v, rest)"
  shows "\<exists>pre. s = pre @ rest \<and> pre \<noteq> [] \<and> \<not> isspace (last pre) \<and> last pre \<noteq> 96"
proof -
  have lit: "\<And>p. startswith s (py p) \<Longrightarrow> rest = drop (length p) s \<Longrightarrow> s = py p @ rest"
  proof -
    fix p assume "startswith s (py p)" "rest = drop (length p) s"
    then show "s = py p @ rest" unfolding startswith_iff by (auto simp: length_py)
  qed
  have n: "length ''null'' = 4" "length ''true'' = 4" "length ''false'' = 5"
    "length ''NaN'' = 3" "length ''Infinity'' = 8" "length ''-Infinity'' = 9"
    by simp_all
  consider "startswith s (py ''null'')" "rest = drop 4 s"
    | "startswith s (py ''true'')" "rest = drop 4 s"
    | "startswith s (py ''false'')" "rest = drop 5 s"
    | "match_number s = Some (v, rest)"
    | "startswith s (py ''NaN'')" "rest = drop 3 s"
    | "startswith s (py ''Infinity'')" "rest = drop 8 s"
    | "startswith s (py ''-Infinity'')" "rest = drop 9 s"
    using assms unfolding scan_atom_def by (auto split: if_splits option.splits)
  then show ?thesis
  proof cases
    case 1
    then have "s = py ''null'' @ rest" using lit[of "''null''"] unfolding n(1) by blast
    moreover have "py ''null'' \<noteq> [] \<and> \<not> isspace (last (py ''null'')) \<and> last (py ''null'') \<noteq> 96"
      by (simp add: py_def isspace_def)
    ultimately show ?thesis by blast
  next
    case 2
    then have "s = py ''true'' @ rest" using lit[of "''true''"] unfolding n(2) by blast
    moreover have "py ''true'' \<noteq> [] \<and> \<not> isspace (last (py ''true'')) \<and> last (py ''true'') \<noteq> 96"
      by (simp add: py_def isspace_def)
    ultimately show ?thesis by blast
  next
    case 3
    then have "s = py ''false'' @ rest" using lit[of "''false''"] unfolding n(3) by blast
    moreover have "py ''false'' \<noteq> [] \<and> \<not> isspace (last (py ''false'')) \<and> last (py ''false'') \<noteq> 96"
      by (simp add: py_def isspace_def)
    ultimately show ?thesis by blast
  next
    case 4
    from match_number_split[OF this] obtain pre where
      "s = pre @ rest" "pre \<noteq> []" "isdigit (last pre)" by blast
    moreover have "\<not> isspace (last pre) \<and> last pre \<noteq> 96"
      using \<open>isdigit (last pre)\<close> unfolding isdigit_def isspace_def by auto
    ultimately show ?thesis by blast
  next
    case 5
    then have "s = py ''NaN'' @ rest" using lit[of "''NaN''"] unfolding n(4) by blast
    moreover have "py ''NaN'' \<noteq> [] \<and> \<not> isspace (last (py ''NaN'')) \<and> last (py ''NaN'') \<noteq> 96"
      by (simp add: py_def isspace_def)
    ultimately show ?thesis by blast
  next
    case 6
    then have "s = py ''Infinity'' @ rest" using lit[of "''Infinity''"] unfolding n(5) by blast
    moreover have "py ''Infinity'' \<noteq> [] \<and> \<not> isspace (last (py ''Infinity'')) \<and> last (py ''Infinity'') \<noteq> 96"
      by (simp add: py_def isspace_def)
    ultimately show ?thesis by blast
  next
    case 7
    then have "s = py ''-Infinity'' @ rest" using lit[of "''-Infinity''"] unfolding n(6) by blast
    moreover have "py ''-Infinity'' \<noteq> [] \<and> \<not> isspace (last (py ''-Infinity'')) \<and> last (py ''-Infinity'') \<noteq> 96"
      by (simp add: py_def isspace_def)
    ultimately show ?thesis by blast
  qed
qed

lemma unicode_escape_split: "unicode_escape s = Some (ch, rest) \<Longrightarrow> \<exists>pre. s = pre @ rest"
proof -
  assume "unicode_escape s = Some (ch, rest)"
  then have "rest = drop 10 s \<or> rest = drop 4 s"
    unfolding unicode_escape_def by (auto split: option.splits if_splits)
  then show ?thesis by (metis append_take_drop_id)
qed

lemma escape_split: "escape s = Some (ch, rest) \<Longrightarrow> \<exists>pre. s = pre @ rest"
proof (cases s)
  case Nil
  assume "escape s = Some (ch, rest)"
  then show ?thesis using Nil by simp
next
  case (Cons esc cs)
  assume a: "escape s = Some (ch, rest)"
  show ?thesis
  proof (cases "esc = 117")
    case True
    then have "unicode_escape cs = Some (ch, rest)" using a Cons by simp
    then obtain pre where "cs = pre @ rest" using unicode_escape_split by blast
    then have "s = (esc # pre) @ rest" using Cons by simp
    then show ?thesis by blast
  next
    case False
    then have "rest = cs" using a Cons by (auto split: option.splits)
    then have "s = [esc] @ rest" using Cons by simp
    then show ?thesis by blast
  qed
qed

lemma scanstring_split: "scanstring cs = Some (str, rest) \<Longrightarrow> \<exists>pre. cs = pre @ 34 # rest"
proof (induction cs arbitrary: str rule: scanstring.induct)
  case 1
  then show ?case by simp
next
  case (2 c cs)
  show ?case
  proof (cases "c = 34")
    case True
    then have "c # cs = [] @ 34 # rest" using "2.prems" by simp
    then show ?thesis by blast
  next
    case c34: False
    show ?thesis
    proof (cases "c = 92")
      case True
      then obtain ch r str' where e: "escape cs = Some (ch, r)"
        and s: "scanstring r = Some (str', rest)"
        using "2.prems" c34 by (auto split: option.splits dest!: prepend_Some)
      obtain pre1 where "r = pre1 @ 34 # rest" using "2.IH"(1) c34 True e s by blast
      moreover obtain pre2 where "cs = pre2 @ r" using escape_split[OF e] by blast
      ultimately have "c # cs = (c # pre2 @ pre1) @ 34 # rest" by simp
      then show ?thesis by blast
    next
      case False
      then have nc: "\<not> c < 32" using "2.prems" c34 by (auto split: if_splits)
      then obtain str' where "scanstring cs = Some (str', rest)"
        using "2.prems" c34 False by (auto split: if_splits dest!: prepend_Some)
      then obtain pre where "cs = pre @ 34 # rest" using "2.IH"(2) c34 False nc by blast
      then have "c # cs = (c # pre) @ 34 # rest" by simp
      then show ?thesis by blast
    qed
  qed
qed

lemma tokenize_last:
  "tokenize s = Some ts \<Longrightarrow> s \<noteq> [] \<Longrightarrow> \<not> json_ws (last s)
     \<Longrightarrow> \<not> isspace (last s) \<and> last s \<noteq> 96"
proof (induction s arbitrary: ts rule: length_induct)
  case (1 s)
  obtain c cs where Cons: "s = c # cs" using "1.prems"(2) by (cases s) auto
  have ih: "\<And>r ts'. length r < length s \<Longrightarrow> tokenize r = Some ts' \<Longrightarrow> r \<noteq> []
      \<Longrightarrow> last s = last r \<Longrightarrow> \<not> isspace (last s) \<and> last s \<noteq> 96"
  proof -
    fix r ts' assume a: "length r < length s" "tokenize r = Some ts'" "r \<noteq> []" "last s = last r"
    then have "\<not> json_ws (last r)" using "1.prems"(3) by simp
    then have "\<not> isspace (last r) \<and> last r \<noteq> 96" using "1.IH" a by blast
    then show "\<not> isspace (last s) \<and> last s \<noteq> 96" using a(4) by simp
  qed
  show ?case
  proof (cases "json_ws c")
    case True
    then have t: "tokenize cs = Some ts" using "1.prems"(1) Cons by (simp add: tokenize_ws_char)
    have ne: "cs \<noteq> []" using True "1.prems"(3) Cons by (cases cs) auto
    show ?thesis using ih[of cs ts] t ne Cons by simp
  next
    case nws: False
    show ?thesis
    proof (cases "c = 123 \<or> c = 125 \<or> c = 91 \<or> c = 93 \<or> c = 58 \<or> c = 44")
      case True
      then obtain t where "tokenize (c # cs) = push t (tokenize cs)"
        using tokenize_punct by blast
      then obtain ts' where t: "tokenize cs = Some ts'"
        using "1.prems"(1) Cons push_Some by metis
      show ?thesis
      proof (cases "cs = []")
        case e: True
        then show ?thesis using True Cons unfolding isspace_def by auto
      next
        case ne: False
        show ?thesis using ih[of cs ts'] t ne Cons by simp
      qed
    next
      case np: False
      show ?thesis
      proof (cases "c = 34")
        case True
        have "(case scanstring cs of None \<Rightarrow> None
            | Some (str, rest) \<Rightarrow> push (TString str) (tokenize rest)) = Some ts"
          using "1.prems"(1) unfolding Cons True tokenize_string .
        then obtain str rest ts' where e: "scanstring cs = Some (str, rest)"
          and t: "tokenize rest = Some ts'"
          by (auto split: option.splits dest!: push_Some)
        obtain pre where cs: "cs = pre @ 34 # rest" using scanstring_split[OF e] by blast
        show ?thesis
        proof (cases "rest = []")
          case e': True
          then have "last s = 34" using cs Cons by simp
          then show ?thesis unfolding isspace_def by simp
        next
          case ne: False
          have "length rest < length s" using cs Cons by simp
          moreover have "last s = last rest" using cs Cons ne by simp
          ultimately show ?thesis using ih[of rest ts'] t ne by simp
        qed
      next
        case nq: False
        have "(case scan_atom (c # cs) of None \<Rightarrow> None
              | Some (v, rest) \<Rightarrow> push (TAtom v) (tokenize rest)) = Some ts"
          using "1.prems"(1) unfolding Cons tokenize_atom[OF nws np nq] .
        then obtain v rest ts' where e: "scan_atom (c # cs) = Some (v, rest)"
          and t: "tokenize rest = Some ts'"
          by (auto split: option.splits dest!: push_Some)
        obtain pre where cs: "c # cs = pre @ rest" "pre \<noteq> []"
          "\<not> isspace (last pre) \<and> last pre \<noteq> 96"
          using scan_atom_split[OF e] by blast
        show ?thesis
        proof (cases "rest = []")
          case e': True
          then show ?thesis using cs Cons by simp
        next
          case ne: False
          have "length rest < length s" using scan_atom_length[OF e] Cons by simp
          moreover have "last s = last rest" unfolding Cons cs(1) using ne by simp
          ultimately show ?thesis using ih[of rest ts'] t ne by simp
        qed
      qed
    qed
  qed
qed

lemma tokenize_Nil: "tokenize [] = Some []"
  by (simp add: tokenize.simps)

lemma list_all_ws_space: "list_all json_ws w \<Longrightarrow> list_all isspace w"
  by (induction w) (auto simp: json_ws_isspace)

lemma dropWhile_all: "list_all P a \<Longrightarrow> dropWhile P (a @ y) = dropWhile P y"
  by (induction a) auto

lemma json_text_shape:
  assumes t: "tokenize j = Some ts" and ne: "ts \<noteq> []"
  shows "\<exists>w1 w2. list_all json_ws w1 \<and> list_all json_ws w2 \<and> j = w1 @ strip j @ w2
           \<and> strip j \<noteq> [] \<and> \<not> isspace (hd (strip j)) \<and> hd (strip j) \<noteq> 106
           \<and> hd (strip j) \<noteq> 74 \<and> last (strip j) \<noteq> 96"
proof -
  define w1 where "w1 = takeWhile json_ws j"
  define j1 where "j1 = dropWhile json_ws j"
  have j: "j = w1 @ j1" unfolding w1_def j1_def by simp
  have w1: "list_all json_ws w1" unfolding w1_def list_all_iff by (auto dest: set_takeWhileD)
  have t1: "tokenize j1 = Some ts" using t tokenize_ws_prefix[OF w1, of j1] unfolding j by simp
  have j1ne: "j1 \<noteq> []" using t1 ne tokenize_Nil by auto
  then obtain c cs where j1: "j1 = c # cs" by (cases j1) auto
  have nws: "\<not> json_ws c" using hd_dropWhile[of json_ws j] j1ne unfolding j1_def[symmetric] j1 by simp
  have hd1: "\<not> isspace c \<and> c \<noteq> 106 \<and> c \<noteq> 74" using tokenize_hd[OF t1[unfolded j1] nws] .
  have ls: "lstrip j = j1"
    unfolding lstrip_def j dropWhile_all[OF list_all_ws_space[OF w1]] using hd1 j1 by simp
  define w2 where "w2 = rev (takeWhile json_ws (rev j1))"
  define body where "body = rev (dropWhile json_ws (rev j1))"
  have jb: "j1 = body @ w2"
  proof -
    have "body @ w2 = rev (takeWhile json_ws (rev j1) @ dropWhile json_ws (rev j1))"
      unfolding body_def w2_def by (simp only: rev_append)
    also have "\<dots> = rev (rev j1)" by (simp only: takeWhile_dropWhile_id)
    finally show ?thesis by simp
  qed
  have w2: "list_all json_ws w2" unfolding w2_def list_all_iff by (auto dest: set_takeWhileD)
  have tb: "tokenize body = Some ts" using t1 tokenize_ws_suffix[OF w2, of body] unfolding jb by simp
  have bne: "body \<noteq> []" using tb ne tokenize_Nil by auto
  then have dne: "dropWhile json_ws (rev j1) \<noteq> []" unfolding body_def by simp
  have "last body = hd (dropWhile json_ws (rev j1))"
    unfolding body_def using dne by (simp add: last_rev)
  then have lnws: "\<not> json_ws (last body)" using hd_dropWhile[OF dne] by simp
  have lb: "\<not> isspace (last body) \<and> last body \<noteq> 96" using tokenize_last[OF tb bne lnws] .
  have "rev j1 = rev w2 @ rev body" unfolding jb by simp
  moreover have "list_all isspace (rev w2)" using list_all_ws_space[OF w2] by simp
  ultimately have "dropWhile isspace (rev j1) = dropWhile isspace (rev body)"
    using dropWhile_all by metis
  also have "\<dots> = rev body" using lb bne by (cases "rev body") (auto simp: last_rev hd_rev)
  finally have rs: "rstrip j1 = body" unfolding rstrip_def by simp
  have st: "strip j = body" unfolding strip_def ls rs ..
  have "hd body = c" using jb j1 bne by (cases body) auto
  then show ?thesis unfolding st using w1 w2 j jb bne hd1 lb by auto
qed

lemma parse_Nil: "parse EValue [] [] = None"
  by simp

lemma json_loads_tokens:
  assumes "json_loads j = Some v"
  shows "\<exists>ts. tokenize j = Some ts \<and> ts \<noteq> [] \<and> parse EValue [] ts = Some v"
  using assms unfolding json_loads_def by (cases "tokenize j") auto

lemma json_loads_strip:
  assumes "json_loads j = Some v"
  shows "json_loads (strip j) = Some v"
proof -
  obtain ts where t: "tokenize j = Some ts" "ts \<noteq> []" "parse EValue [] ts = Some v"
    using json_loads_tokens[OF assms] by blast
  obtain w1 w2 where w: "list_all json_ws w1" "list_all json_ws w2" "j = w1 @ strip j @ w2"
    using json_text_shape[OF t(1,2)] by blast
  have "tokenize j = tokenize (w1 @ strip j @ w2)" using w(3) by simp
  also have "\<dots> = tokenize (strip j @ w2)" by (rule tokenize_ws_prefix[OF w(1)])
  also have "\<dots> = tokenize (strip j)" by (rule tokenize_ws_suffix[OF w(2)])
  finally have "tokenize (strip j) = Some ts" using t(1) by simp
  then show ?thesis unfolding json_loads_def using t(3) by simp
qed

lemma replace_leading_fence:
  "str_replace [96, 96, 96] [] ([96, 96, 96] @ y) = str_replace [96, 96, 96] [] y"
proof -
  have "startswith (96 # [96, 96] @ y) [96, 96, 96]" unfolding startswith_iff by simp
  from replace_hit[OF _ this, of "[]"] show ?thesis by simp
qed

lemma replace_trailing_fence:
  "\<not> contains [96, 96, 96] x \<Longrightarrow> x = [] \<or> last x \<noteq> 96
     \<Longrightarrow> str_replace [96, 96, 96] [] (x @ [96, 96, 96]) = x"
proof (induction x)
  case Nil
  have "str_replace [96, 96, 96] [] ([96, 96, 96] @ []) = str_replace [96, 96, 96] [] []"
    by (rule replace_leading_fence)
  then show ?case by (simp add: replace_nil)
next
  case (Cons c cs)
  have nc: "\<not> contains [96, 96, 96] cs" and ns: "\<not> startswith (c # cs) [96, 96, 96]"
    using Cons.prems(1) by auto
  have lst: "cs = [] \<or> last cs \<noteq> 96" using Cons.prems(2) by (cases cs) auto
  have "\<not> startswith (c # cs @ [96, 96, 96]) [96, 96, 96]"
  proof
    assume "startswith (c # cs @ [96, 96, 96]) [96, 96, 96]"
    then obtain r where r: "c # cs @ [96, 96, 96] = [96, 96, 96] @ r"
      unfolding startswith_iff by blast
    consider "cs = []" | d where "cs = [d]" | d e cs' where "cs = d # e # cs'"
      by (cases cs; cases "tl cs") auto
    then show False
    proof cases
      case 1
      then have "c \<noteq> 96" using Cons.prems(2) by simp
      moreover have "c = 96" using r by simp
      ultimately show ?thesis by simp
    next
      case 2
      then have "d \<noteq> 96" using Cons.prems(2) by simp
      moreover have "d = 96" using r 2 by simp
      ultimately show ?thesis by simp
    next
      case 3
      then have "c # cs = [96, 96, 96] @ cs'" using r by simp
      then show ?thesis using ns unfolding startswith_iff by blast
    qed
  qed
  then have "str_replace [96, 96, 96] [] (c # cs @ [96, 96, 96])
      = c # str_replace [96, 96, 96] [] (cs @ [96, 96, 96])"
    by (intro replace_miss) simp_all
  then show ?case using Cons.IH[OF nc lst] by simp
qed

lemma contains_no_tick_prefix:
  "96 \<notin> set a \<Longrightarrow> contains [96, 96, 96] (a @ y) = contains [96, 96, 96] y"
proof (induction a)
  case Nil
  then show ?case by simp
next
  case (Cons c a)
  then have "c \<noteq> 96" by auto
  then have "\<not> startswith (c # a @ y) [96, 96, 96]" unfolding startswith_iff by auto
  then show ?case using Cons by simp
qed

lemma contains_rev: "contains (rev sub) (rev s) = contains sub s"
proof -
  have "\<And>sub s. contains sub s \<Longrightarrow> contains (rev sub) (rev s)"
  proof -
    fix sub s :: pystr
    assume "contains sub s"
    then obtain a b where "s = a @ sub @ b" unfolding contains_iff by blast
    then have "rev s = rev b @ rev sub @ rev a" by simp
    then show "contains (rev sub) (rev s)" unfolding contains_iff by blast
  qed
  from this[of sub s] this[of "rev sub" "rev s"] show ?thesis by auto
qed

lemma contains_no_tick_suffix:
  assumes "96 \<notin> set b"
  shows "contains [96, 96, 96] (y @ b) = contains [96, 96, 96] y"
proof -
  have "contains [96, 96, 96] (y @ b) = contains (rev [96, 96, 96]) (rev (y @ b))"
    by (simp only: contains_rev)
  also have "\<dots> = contains [96, 96, 96] (rev b @ rev y)" by simp
  also have "\<dots> = contains [96, 96, 96] (rev y)"
    using assms by (intro contains_no_tick_prefix) simp
  also have "\<dots> = contains (rev [96, 96, 96]) (rev y)" by simp
  also have "\<dots> = contains [96, 96, 96] y" by (simp only: contains_rev)
  finally show ?thesis .
qed

lemma space_no_tick: "list_all isspace a \<Longrightarrow> 96 \<notin> set a"
  unfolding list_all_iff isspace_def by auto

lemma lstrip_around:
  assumes a: "list_all isspace a" and j: "lstrip j \<noteq> []"
  shows "lstrip (a @ j @ b) = lstrip j @ b"
proof -
  obtain x where x: "x \<in> set j" "\<not> isspace x"
    using j unfolding lstrip_def by (auto simp: dropWhile_eq_Nil_conv)
  have "dropWhile isspace (j @ b) = dropWhile isspace j @ b"
    using x by (rule dropWhile_append1)
  then show ?thesis unfolding lstrip_def dropWhile_all[OF a] .
qed

lemma rstrip_around:
  assumes b: "list_all isspace b"
  shows "rstrip (y @ b) = rstrip y"
proof -
  have "list_all isspace (rev b)" using b by simp
  then have "dropWhile isspace (rev b @ rev y) = dropWhile isspace (rev y)" by (rule dropWhile_all)
  then show ?thesis unfolding rstrip_def by simp
qed

lemma strip_around:
  assumes "list_all isspace a" "list_all isspace b" "strip j \<noteq> []"
  shows "strip (a @ j @ b) = strip j"
proof -
  have "lstrip j \<noteq> []" using assms(3) unfolding strip_def rstrip_def by auto
  then have "lstrip (a @ j @ b) = lstrip j @ b" using assms(1) by (intro lstrip_around)
  then show ?thesis unfolding strip_def using rstrip_around[OF assms(2)] by simp
qed

lemma lstrip_idem: "lstrip (lstrip s) = lstrip s"
  unfolding lstrip_def by (simp add: dropWhile_idem)

lemma strip_lstrip: "strip (lstrip s) = strip s"
  unfolding strip_def lstrip_idem ..

lemma hd_strip: "strip j \<noteq> [] \<Longrightarrow> hd (lstrip j) = hd (strip j)"
proof -
  assume a: "strip j \<noteq> []"
  have "strip j = take (length (lstrip j) - length (takeWhile isspace (rev (lstrip j)))) (lstrip j)"
    unfolding strip_def by (rule rstrip_is_take)
  then show ?thesis using a by (metis hd_take take_eq_Nil gr0I)
qed

lemma match_ci_j: "match_ci CHR ''j'' c \<longleftrightarrow> c = 106 \<or> c = 74"
  unfolding match_ci_def by auto

lemma re_match_json_none:
  assumes "s \<noteq> []" "\<not> isspace (hd s)" "hd s \<noteq> 106" "hd s \<noteq> 74"
  shows "re_match_json s = None"
proof -
  obtain c cs where s: "s = c # cs" using assms(1) by (cases s) auto
  have "\<not> list_all2 match_ci ''json'' (take 4 (c # cs))"
    using assms(3,4) unfolding s by (auto simp: match_ci_j list_all2_Cons1 take_Cons')
  then show ?thesis unfolding re_match_json_def s using assms(2) s by simp
qed

lemma re_match_json_tag: 
  "re_match_json (py ''json'' @ y) = Some (lstrip y)"
proof -
  have "list_all2 match_ci ''json'' (py ''json'')" by (simp add: py_def match_ci_def)
  moreover have "dropWhile isspace (py ''json'' @ y) = py ''json'' @ y"
    by (simp add: py_def isspace_def)
  moreover have "take 4 (py ''json'' @ y) = py ''json''" "drop 4 (py ''json'' @ y) = y"
    by (simp_all add: py_def)
  ultimately show ?thesis unfolding re_match_json_def lstrip_def by (simp add: Let_def)
qed

lemma clean_fenced:
  assumes nf: "\<not> contains (py ''```'') j"
    and lang: "lang = [] \<or> lang = py ''json''"
    and s1: "list_all isspace sep1" and s2: "list_all isspace sep2"
    and ne: "strip j \<noteq> []"
    and hd: "hd (strip j) \<noteq> 106" "hd (strip j) \<noteq> 74"
    and lst: "last (strip j) \<noteq> 96"
  shows "clean_json_output (fenced lang sep1 j sep2) = strip j"
proof -
  define y where "y = sep1 @ j @ sep2"
  define x where "x = lang @ y"
  have f: "fenced lang sep1 j sep2 = [96, 96, 96] @ x @ [96, 96, 96]"
    unfolding fenced_def fence_eq x_def y_def by simp
  have lne: "lstrip j \<noteq> []" using ne unfolding strip_def rstrip_def by auto
  then have jne: "j \<noteq> []" unfolding lstrip_def by auto
  have tl: "96 \<notin> set lang" using lang by (auto simp: py_def)
  have "\<not> contains [96, 96, 96] (j @ sep2)"
    using nf unfolding fence_eq contains_no_tick_suffix[OF space_no_tick[OF s2]] .
  then have "\<not> contains [96, 96, 96] ((lang @ sep1) @ j @ sep2)"
    using contains_no_tick_prefix[of "lang @ sep1" "j @ sep2"] tl space_no_tick[OF s1] by simp
  then have ncx: "\<not> contains [96, 96, 96] x" unfolding x_def y_def by simp
  have lj: "last j \<noteq> 96"
  proof (cases "isspace (last j)")
    case True
    then show ?thesis unfolding isspace_def by auto
  next
    case False
    have lj': "last (lstrip j) = last j"
      using lne unfolding lstrip_def dropWhile_eq_drop by (simp add: last_drop)
    then have "\<not> isspace (last (lstrip j))" using False by simp
    then have "dropWhile isspace (rev (lstrip j)) = rev (lstrip j)"
      using lne by (cases "rev (lstrip j)") (auto simp: hd_rev)
    then have "strip j = lstrip j" unfolding strip_def rstrip_def by simp
    then show ?thesis using lj' lst by simp
  qed
  have lx: "x = [] \<or> last x \<noteq> 96"
  proof (cases "sep2 = []")
    case True
    then show ?thesis unfolding x_def y_def using lj jne by simp
  next
    case False
    then have "last x \<in> set sep2" unfolding x_def y_def by simp
    then show ?thesis using space_no_tick[OF s2] by auto
  qed
  have rep: "str_replace (py ''```'') [] (fenced lang sep1 j sep2) = x"
    unfolding f fence_eq replace_leading_fence by (rule replace_trailing_fence[OF ncx lx])
  have sy: "strip y = strip j" unfolding y_def by (rule strip_around[OF s1 s2 ne])
  have "strip (re_sub_json x) = strip j"
  proof (cases "lang = []")
    case True
    have ly: "lstrip y = lstrip j @ sep2" unfolding y_def by (rule lstrip_around[OF s1 lne])
    have hy: "hd (lstrip y) = hd (strip j)" unfolding ly using lne hd_strip[OF ne] by simp
    have "re_match_json (lstrip y) = None"
    proof (rule re_match_json_none)
      show "lstrip y \<noteq> []" unfolding ly using lne by simp
      show "\<not> isspace (hd (lstrip y))" unfolding hy using strip_hd[of j] ne by simp
      show "hd (lstrip y) \<noteq> 106" "hd (lstrip y) \<noteq> 74" unfolding hy using hd by auto
    qed
    then have "re_match_json y = None"
      unfolding re_match_json_def lstrip_def by (simp add: dropWhile_idem)
    then show ?thesis unfolding x_def True re_sub_json_def using sy by simp
  next
    case False
    then have "x = py ''json'' @ y" using lang unfolding x_def by simp
    then have "re_sub_json x = lstrip y" by (simp add: re_sub_json_def re_match_json_tag)
    then show ?thesis using sy strip_lstrip by simp
  qed
  then show ?thesis unfolding clean_json_output_def Let_def rep .
qed

text \<open>
  Claim C4 (as amended). The normalizer removes every triple backtick, also one inside a
  string of the JSON text, so the claim fails for a text that contains one
  (\<open>fenced_json_backticks_lost\<close> below). For every text \<open>j\<close> that \<open>json.loads\<close> accepts
  (an object text in particular) and that contains no triple backtick: wrapping \<open>j\<close> in a
  code fence, with or without the tag \<open>json\<close> and with any whitespace between the fences
  and \<open>j\<close>, then normalizing and decoding, gives the value of decoding \<open>j\<close> directly.
\<close>

theorem fenced_json_decodes:
  assumes "json_loads j = Some v"
    and "\<not> contains (py ''```'') j"
    and "lang = [] \<or> lang = py ''json''"
    and "list_all isspace sep1" and "list_all isspace sep2"
  shows "json_loads (clean_json_output (fenced lang sep1 j sep2)) = json_loads j"
proof -
  obtain ts where t: "tokenize j = Some ts" "ts \<noteq> []"
    using json_loads_tokens[OF assms(1)] by blast
  from json_text_shape[OF t] have sh: "strip j \<noteq> []" "hd (strip j) \<noteq> 106" "hd (strip j) \<noteq> 74"
    "last (strip j) \<noteq> 96" by auto
  have "clean_json_output (fenced lang sep1 j sep2) = strip j"
    using assms(2-5) sh by (rule clean_fenced)
  then show ?thesis using json_loads_strip[OF assms(1)] assms(1) by simp
qed

theorem fenced_json_decodes_witness:
  "json_loads (py ''{\"a\": [1, 2]}'') = Some (JObject [(py ''a'', JArray [JInt 1, JInt 2])])
   \<and> \<not> contains (py ''```'') (py ''{\"a\": [1, 2]}'')
   \<and> json_loads (clean_json_output (fenced (py ''json'') [10] (py ''{\"a\": [1, 2]}'') [10]))
       = Some (JObject [(py ''a'', JArray [JInt 1, JInt 2])])"
proof -
  have a: "json_loads (py ''{\"a\": [1, 2]}'') = Some (JObject [(py ''a'', JArray [JInt 1, JInt 2])])"
    by code_simp
  have b: "\<not> contains (py ''```'') (py ''{\"a\": [1, 2]}'')" by code_simp
  have c: "list_all isspace [10]" by (simp add: isspace_def)
  show ?thesis
    using fenced_json_decodes[OF a b _ c c, of "py ''json''"] a b by simp
qed

text \<open>
  The claim as stated fails at the object text \<open>{"a": "```"}\<close>: the fenced text normalizes
  to \<open>{"a": ""}\<close>, which decodes to another value.
\<close>

theorem fenced_json_backticks_lost:
  "json_loads (py ''{\"a\": \"```\"}'') = Some (JObject [(py ''a'', JString (py ''```''))])
   \<and> json_loads (clean_json_output (fenced (py ''json'') [10] (py ''{\"a\": \"```\"}'') [10]))
       = Some (JObject [(py ''a'', JString [])])
   \<and> json_loads (clean_json_output (fenced (py ''json'') [10] (py ''{\"a\": \"```\"}'') [10]))
       \<noteq> json_loads (py ''{\"a\": \"```\"}'')"
  by code_simp


end
